theory Spec2Isabelle
  imports Main "HOL-Library.Word"
begin

unbundle bit_operations_syntax

section \<open>Physical memory and page tables of kern/pmap.c\<close>

text \<open>
  The development embeds the frame database, the two page-table walkers and the mapping
  operations of \<^verbatim>\<open>kern/pmap.c\<close>.

  A \<^verbatim>\<open>struct Page *\<close> is the index of the descriptor in the \<^verbatim>\<open>pages\<close> array. A pointer to
  a page-table or page-directory entry is the pair of the physical frame that holds the
  table and the index of the entry in it; a \<^verbatim>\<open>pde_t *pgdir\<close> is the frame of the directory,
  which is aligned to a page. The descriptor array and the contents of the frames are
  separate stores, and the descriptor array is a total function: an index at or beyond
  \<open>npage\<close> is not told apart from one inside the array. A function that can \<^verbatim>\<open>panic\<close>
  returns a sum whose left side is the fatal stop; a function with an output parameter
  returns its value; \<^verbatim>\<open>invlpg\<close> is a log of the invalidated addresses.
\<close>

subsection \<open>Constants and macros of the headers\<close>

type_synonym pte_t = "32 word"
type_synonym frame = nat
type_synonym pte_ptr = "frame \<times> nat"

text \<open>
  Modelled from the spec: the entry flags of \<^verbatim>\<open>inc/mmu.h\<close>, which is not part of the
  sources. The spec fixes them as the bits the MMU of the target architecture mandates
  (present, writable, user, large page); these are the x86 values.
\<close>

definition PTE_P :: pte_t where "PTE_P = 0x001"
definition PTE_W :: pte_t where "PTE_W = 0x002"
definition PTE_U :: pte_t where "PTE_U = 0x004"
definition PTE_PS :: pte_t where "PTE_PS = 0x080"

text \<open>
  Modelled from the spec: the address-splitting macros of \<^verbatim>\<open>inc/mmu.h\<close>, which is not part
  of the sources: a two-level table with 10-bit directory and table indices over 4 KB
  pages, and 4 MB large pages, as on x86.
\<close>

definition NPTENTRIES :: nat where "NPTENTRIES = 1024"
definition PGSIZE :: "32 word" where "PGSIZE = 4096"

definition PDX :: "32 word \<Rightarrow> nat" where
  "PDX la = unat (drop_bit 22 la AND 0x3FF)"

definition PTX :: "32 word \<Rightarrow> nat" where
  "PTX la = unat (drop_bit 12 la AND 0x3FF)"

definition PPN :: "32 word \<Rightarrow> frame" where
  "PPN pa = unat (drop_bit 12 pa)"

definition JPGOFF :: "32 word \<Rightarrow> 32 word" where
  "JPGOFF la = la AND 0x3FFFFF"

definition PTE_ADDR :: "pte_t \<Rightarrow> 32 word" where
  "PTE_ADDR pte = pte AND NOT 0xFFF"

text \<open>
  Modelled from the spec: \<^verbatim>\<open>ROUNDUP\<close> of \<^verbatim>\<open>inc/types.h\<close>, which is not part of the sources. The
  spec has the bootstrap allocator round its cursor up to the alignment; the arithmetic
  is that of 32-bit unsigned integers.
\<close>

definition ROUNDUP :: "32 word \<Rightarrow> 32 word \<Rightarrow> 32 word" where
  "ROUNDUP a n = (a + n - 1) - (a + n - 1) mod n"

text \<open>
  Modelled from the spec: \<^verbatim>\<open>KERNBASE\<close> and \<^verbatim>\<open>PADDR\<close> of headers that are not part of the
  sources. The spec maps all physical memory at a high offset; the comments of
  \<^verbatim>\<open>i386_vm_init\<close> give the mapping of \<open>KERNBASE + x\<close> to the physical address \<open>x\<close> and
  \<open>-KERNBASE = 0x40000000\<close>.
\<close>

definition KERNBASE :: "32 word" where "KERNBASE = 0xC0000000"

definition PADDR :: "32 word \<Rightarrow> 32 word" where
  "PADDR kva = kva - KERNBASE"

text \<open>
  Modelled from the spec: the conversions of \<^verbatim>\<open>kern/pmap.h\<close>, which is not part of the
  sources, between a frame descriptor, the physical address of its frame and the page
  number: \<open>page2pa\<close> shifts the index of the descriptor, \<open>pa2page\<close> indexes \<^verbatim>\<open>pages\<close> by the
  page number. \<open>KADDR_entry pa i\<close> is the address \<^verbatim>\<open>&((pde_t*)KADDR(pa))[i]\<close> for a page-aligned
  \<open>pa\<close>. A range check that these conversions may make is not modelled.
\<close>

definition page2pa :: "frame \<Rightarrow> 32 word" where
  "page2pa pp = push_bit 12 (word_of_nat pp)"

definition pa2page :: "32 word \<Rightarrow> frame" where
  "pa2page pa = PPN pa"

definition KADDR_entry :: "32 word \<Rightarrow> nat \<Rightarrow> pte_ptr" where
  "KADDR_entry pa i = (PPN pa, i)"

subsection \<open>The state\<close>

text \<open>
  Modelled from the spec: \<^verbatim>\<open>struct Page\<close> and the list head, whose declarations are not part
  of the sources. The spec gives each descriptor a reference count and a free-list link
  and makes the free list a doubly linked list with insertion at the head; this is the
  intrusive list of the BSD queue macros: \<open>le_next\<close> points to the next descriptor,
  \<open>le_prev\<close> to the \<open>le_next\<close> field of the previous one or to the head of the list. The
  width of the unsigned count \<open>pp_ref\<close> is a parameter.
\<close>

datatype link = Head | Next frame

record 'r Page =
  le_next :: "frame option"
  le_prev :: "link option"
  pp_ref :: 'r

record 'r pmap_state =
  npage :: nat
  pages :: "frame \<Rightarrow> 'r Page"
  lh_first :: "frame option"
  mem :: "pte_ptr \<Rightarrow> pte_t"
  tlb_log :: "32 word list"
  boot_freemem :: "32 word"
  kernel_end :: "32 word"
  maxpa :: "32 word"

type_synonym 'w pmap = "'w word pmap_state"

datatype fatal = Panic | NullStore

datatype errno = E_NO_MEM | E_FAULT

subsection \<open>The free list\<close>

text \<open>
  Modelled from the spec: the macros \<^verbatim>\<open>LIST_INSERT_HEAD\<close> and \<^verbatim>\<open>LIST_REMOVE\<close> of
  \<^verbatim>\<open>inc/queue.h\<close>, which is not part of the sources: insertion at the head and unlinking
  of an element of the doubly linked list of the spec, store by store as the BSD macros
  make them. \<^verbatim>\<open>LIST_REMOVE\<close> stores through the back link of the element; through a null
  back link the store is the fatal \<open>NullStore\<close>.
\<close>

definition LIST_INSERT_HEAD :: "frame \<Rightarrow> 'w::len pmap \<Rightarrow> 'w pmap" where
  "LIST_INSERT_HEAD elm s =
     (let pg1 = (pages s)(elm := (pages s elm)\<lparr>le_next := lh_first s\<rparr>);
          pg2 = (case le_next (pg1 elm) of
                   None \<Rightarrow> pg1
                 | Some h \<Rightarrow> pg1(h := (pg1 h)\<lparr>le_prev := Some (Next elm)\<rparr>))
      in s\<lparr>pages := pg2(elm := (pg2 elm)\<lparr>le_prev := Some Head\<rparr>), lh_first := Some elm\<rparr>)"

definition LIST_REMOVE :: "frame \<Rightarrow> 'w::len pmap \<Rightarrow> fatal + 'w pmap" where
  "LIST_REMOVE elm s =
     (let pg1 = (case le_next (pages s elm) of
                   None \<Rightarrow> pages s
                 | Some n \<Rightarrow> (pages s)(n := (pages s n)\<lparr>le_prev := le_prev (pages s elm)\<rparr>))
      in case le_prev (pg1 elm) of
           None \<Rightarrow> Inl NullStore
         | Some Head \<Rightarrow> Inr (s\<lparr>pages := pg1, lh_first := le_next (pg1 elm)\<rparr>)
         | Some (Next q) \<Rightarrow>
             Inr (s\<lparr>pages := pg1(q := (pg1 q)\<lparr>le_next := le_next (pg1 elm)\<rparr>)\<rparr>))"

subsection \<open>Bootstrap allocator and bootstrap walker\<close>

definition memset_page :: "frame \<Rightarrow> (pte_ptr \<Rightarrow> pte_t) \<Rightarrow> (pte_ptr \<Rightarrow> pte_t)" where
  "memset_page f m = (\<lambda>(g, i). if g = f \<and> i < NPTENTRIES then 0 else m (g, i))"

definition boot_alloc :: "32 word \<Rightarrow> 32 word \<Rightarrow> 'w::len pmap \<Rightarrow> fatal + (32 word \<times> 'w pmap)" where
  "boot_alloc n align s =
     (let s1 = (if boot_freemem s = 0 then s\<lparr>boot_freemem := kernel_end s\<rparr> else s);
          s2 = s1\<lparr>boot_freemem := ROUNDUP (boot_freemem s1) align\<rparr>;
          v = boot_freemem s2
      in if PADDR (boot_freemem s2 + n) > maxpa s2 then Inl Panic
         else Inr (v, s2\<lparr>boot_freemem := boot_freemem s2 + n\<rparr>))"

definition boot_pgdir_walk ::
  "frame \<Rightarrow> 32 word \<Rightarrow> int \<Rightarrow> 'w::len pmap \<Rightarrow> fatal + (pte_ptr option \<times> 'w pmap)" where
  "boot_pgdir_walk pgdir la create s =
     (let the_pde = (pgdir, PDX la) in
      if mem s the_pde AND PTE_P \<noteq> 0 then
        (if mem s the_pde AND PTE_PS \<noteq> 0 then Inr (Some the_pde, s)
         else Inr (Some (KADDR_entry (PTE_ADDR (mem s the_pde)) (PTX la)), s))
      else if create = 0 then Inr (None, s)
      else if create = 2 then
        (if JPGOFF la \<noteq> 0 then Inl Panic
         else Inr (Some the_pde, s\<lparr>mem := (mem s)(the_pde := PTE_PS OR PTE_P)\<rparr>))
      else
        (case boot_alloc PGSIZE PGSIZE s of
           Inl f \<Rightarrow> Inl f
         | Inr (new_table, s1) \<Rightarrow>
             (let s2 = s1\<lparr>mem := memset_page (PPN (PADDR new_table)) (mem s1)\<rparr>;
                  s3 = s2\<lparr>mem := (mem s2)(the_pde := PADDR new_table OR PTE_P OR PTE_W OR PTE_U)\<rparr>
              in Inr (Some (KADDR_entry (PTE_ADDR (mem s3 the_pde)) (PTX la)), s3))))"

subsection \<open>Tracking of physical pages\<close>

definition set_pp_ref :: "frame \<Rightarrow> 'w word \<Rightarrow> 'w::len pmap \<Rightarrow> 'w pmap" where
  "set_pp_ref pp r s = s\<lparr>pages := (pages s)(pp := (pages s pp)\<lparr>pp_ref := r\<rparr>)\<rparr>"

definition mark_free :: "frame \<Rightarrow> 'w::len pmap \<Rightarrow> 'w pmap" where
  "mark_free i s = LIST_INSERT_HEAD i (set_pp_ref i 0 s)"

definition mark_used :: "frame \<Rightarrow> 'w::len pmap \<Rightarrow> 'w pmap" where
  "mark_used i s = set_pp_ref i 1 s"

text \<open>
  \<open>page_init\<close>: the four loops run over the page numbers of the base memory, the IO hole, the
  kernel with its bootstrap allocations, and the rest. \<^verbatim>\<open>IOPHYSMEM\<close> and \<^verbatim>\<open>EXTPHYSMEM\<close> are
  constants of a header that is not part of the sources and are taken as parameters.
\<close>

definition page_init :: "32 word \<Rightarrow> 32 word \<Rightarrow> 'w::len pmap \<Rightarrow> 'w pmap" where
  "page_init IOPHYSMEM EXTPHYSMEM s =
     (let physaddr_after_kernel = PADDR (ROUNDUP (boot_freemem s) PGSIZE);
          s0 = s\<lparr>lh_first := None\<rparr>;
          s1 = mark_used 0 s0;
          s2 = fold mark_free [1 ..< PPN IOPHYSMEM] s1;
          s3 = fold mark_used [PPN IOPHYSMEM ..< PPN EXTPHYSMEM] s2;
          s4 = fold mark_used [PPN EXTPHYSMEM ..< PPN physaddr_after_kernel] s3
      in fold mark_free [PPN physaddr_after_kernel ..< npage s] s4)"

definition page_initpp :: "frame \<Rightarrow> 'w::len pmap \<Rightarrow> 'w pmap" where
  "page_initpp pp s = s\<lparr>pages := (pages s)(pp := \<lparr>le_next = None, le_prev = None, pp_ref = 0\<rparr>)\<rparr>"

definition page_alloc :: "'w::len pmap \<Rightarrow> fatal + ((errno + frame) \<times> 'w pmap)" where
  "page_alloc s =
     (case lh_first s of
        None \<Rightarrow> Inr (Inl E_NO_MEM, s)
      | Some pp \<Rightarrow>
          (case LIST_REMOVE pp s of
             Inl f \<Rightarrow> Inl f
           | Inr s1 \<Rightarrow> Inr (Inr pp, page_initpp pp s1)))"

definition page_free :: "frame \<Rightarrow> 'w::len pmap \<Rightarrow> fatal + 'w pmap" where
  "page_free pp s =
     (if pp_ref (pages s pp) \<noteq> 0 then Inl Panic else Inr (LIST_INSERT_HEAD pp s))"

definition page_decref :: "frame \<Rightarrow> 'w::len pmap \<Rightarrow> fatal + 'w pmap" where
  "page_decref pp s =
     (let s1 = set_pp_ref pp (pp_ref (pages s pp) - 1) s
      in if pp_ref (pages s1 pp) = 0 then page_free pp s1 else Inr s1)"

subsection \<open>Walking and editing page tables\<close>

definition pgdir_walk ::
  "frame \<Rightarrow> 32 word \<Rightarrow> int \<Rightarrow> 'w::len pmap \<Rightarrow> fatal + (pte_ptr option \<times> 'w pmap)" where
  "pgdir_walk pgdir va create s =
     (let the_pde = (pgdir, PDX va) in
      if mem s the_pde AND PTE_P \<noteq> 0 then
        (if mem s the_pde AND PTE_PS \<noteq> 0 then Inr (Some the_pde, s)
         else Inr (Some (KADDR_entry (PTE_ADDR (mem s the_pde)) (PTX va)), s))
      else if create = 0 then Inr (None, s)
      else if create = 2 then
        (if JPGOFF va \<noteq> 0 then Inl Panic
         else Inr (Some the_pde, s\<lparr>mem := (mem s)(the_pde := PTE_PS OR PTE_P)\<rparr>))
      else
        (case page_alloc s of
           Inl f \<Rightarrow> Inl f
         | Inr (Inl e, s1) \<Rightarrow> Inr (None, s1)
         | Inr (Inr new_table, s1) \<Rightarrow>
             (let s2 = set_pp_ref new_table 1 s1;
                  s3 = s2\<lparr>mem := memset_page (PPN (page2pa new_table)) (mem s2)\<rparr>;
                  s4 = s3\<lparr>mem := (mem s3)(the_pde := page2pa new_table OR PTE_P OR PTE_W OR PTE_U)\<rparr>
              in Inr (Some (KADDR_entry (PTE_ADDR (mem s4 the_pde)) (PTX va)), s4))))"

definition tlb_invalidate :: "frame \<Rightarrow> 32 word \<Rightarrow> 'w::len pmap \<Rightarrow> 'w pmap" where
  "tlb_invalidate pgdir va s = s\<lparr>tlb_log := va # tlb_log s\<rparr>"

definition page_lookup ::
  "frame \<Rightarrow> 32 word \<Rightarrow> 'w::len pmap \<Rightarrow> fatal + ((frame \<times> pte_ptr) option \<times> 'w pmap)" where
  "page_lookup pgdir va s =
     (case pgdir_walk pgdir va 0 s of
        Inl f \<Rightarrow> Inl f
      | Inr (None, s1) \<Rightarrow> Inr (None, s1)
      | Inr (Some pte, s1) \<Rightarrow>
          (if mem s1 pte AND PTE_P = 0 then Inr (None, s1)
           else Inr (Some (pa2page (PTE_ADDR (mem s1 pte)), pte), s1)))"

definition page_remove :: "frame \<Rightarrow> 32 word \<Rightarrow> 'w::len pmap \<Rightarrow> fatal + 'w pmap" where
  "page_remove pgdir va s =
     (case page_lookup pgdir va s of
        Inl f \<Rightarrow> Inl f
      | Inr (None, s1) \<Rightarrow> Inr s1
      | Inr (Some (page, pte), s1) \<Rightarrow>
          (let s2 = s1\<lparr>mem := (mem s1)(pte := 0)\<rparr>;
               s3 = tlb_invalidate pgdir va s2
           in page_decref page s3))"

definition page_insert ::
  "frame \<Rightarrow> frame \<Rightarrow> 32 word \<Rightarrow> 32 word \<Rightarrow> 'w::len pmap \<Rightarrow> fatal + ((errno + unit) \<times> 'w pmap)" where
  "page_insert pgdir pp va perm s =
     (case pgdir_walk pgdir va 1 s of
        Inl f \<Rightarrow> Inl f
      | Inr (None, s1) \<Rightarrow> Inr (Inl E_NO_MEM, s1)
      | Inr (Some pte, s1) \<Rightarrow>
          (let s2 = set_pp_ref pp (pp_ref (pages s1 pp) + 1) s1
           in case (if mem s2 pte AND PTE_P \<noteq> 0 then page_remove pgdir va s2 else Inr s2) of
                Inl f \<Rightarrow> Inl f
              | Inr s3 \<Rightarrow>
                  Inr (Inr (), s3\<lparr>mem := (mem s3)(pte := page2pa pp OR PTE_P OR perm)\<rparr>)))"

subsection \<open>Checking user access\<close>

definition user_mem_check :: "'env \<Rightarrow> 32 word \<Rightarrow> 32 word \<Rightarrow> 32 word \<Rightarrow> (errno + unit)" where
  "user_mem_check env va len perm = Inr ()"

definition user_mem_assert :: "'env \<Rightarrow> 32 word \<Rightarrow> 32 word \<Rightarrow> 32 word \<Rightarrow> bool" where
  "user_mem_assert env va len perm =
     (case user_mem_check env va len (perm OR PTE_U) of Inl e \<Rightarrow> True | Inr u \<Rightarrow> False)"

subsection \<open>Sequences of calls to the frame database\<close>

datatype db_call = Alloc | Free frame | Decref frame

fun db_step :: "db_call \<Rightarrow> 'w::len pmap \<Rightarrow> fatal + 'w pmap" where
  "db_step Alloc s = (case page_alloc s of Inl f \<Rightarrow> Inl f | Inr (r, s1) \<Rightarrow> Inr s1)"
| "db_step (Free pp) s = page_free pp s"
| "db_step (Decref pp) s = page_decref pp s"

fun db_run :: "db_call list \<Rightarrow> 'w::len pmap \<Rightarrow> fatal + 'w pmap" where
  "db_run [] s = Inr s"
| "db_run (c # cs) s = (case db_step c s of Inl f \<Rightarrow> Inl f | Inr s1 \<Rightarrow> db_run cs s1)"

subsection \<open>Observations on a state\<close>

text \<open>
  The frames on the free list are those reached from the head of the list along the
  \<open>le_next\<close> links. The list structure of a state is its head with the two links of every
  descriptor.
\<close>

inductive list_reach :: "(frame \<Rightarrow> 'r Page) \<Rightarrow> frame option \<Rightarrow> frame \<Rightarrow> bool"
  for pg :: "frame \<Rightarrow> 'r Page" where
  reach_here: "list_reach pg (Some x) x"
| reach_next: "list_reach pg (le_next (pg x)) y \<Longrightarrow> list_reach pg (Some x) y"

code_pred list_reach .

definition on_free_list :: "'r pmap_state \<Rightarrow> frame \<Rightarrow> bool" where
  "on_free_list s x = list_reach (pages s) (lh_first s) x"

definition free_list_links ::
  "'r pmap_state \<Rightarrow> frame option \<times> (frame \<Rightarrow> frame option \<times> link option)" where
  "free_list_links s = (lh_first s, \<lambda>x. (le_next (pages s x), le_prev (pages s x)))"

definition head_linked :: "'r pmap_state \<Rightarrow> bool" where
  "head_linked s =
     (case lh_first s of None \<Rightarrow> True | Some h \<Rightarrow> le_prev (pages s h) = Some Head)"

text \<open>
  \<open>list_path pg p xs\<close>: from the pointer \<open>p\<close> the \<open>le_next\<close> links run through exactly the
  frames \<open>xs\<close> and end in null.
\<close>

fun list_path :: "(frame \<Rightarrow> 'r Page) \<Rightarrow> frame option \<Rightarrow> frame list \<Rightarrow> bool" where
  "list_path pg p [] = (p = None)"
| "list_path pg p (x # xs) = (p = Some x \<and> list_path pg (le_next (pg x)) xs)"

text \<open>
  A sequence of calls respects the preconditions of the frame database when every
  \<open>Decref\<close> in it meets a count that is not 0 and every \<open>Free\<close> a frame that is not already
  on the free list (no double free).
\<close>

fun db_call_ok :: "db_call \<Rightarrow> 'w::len pmap \<Rightarrow> bool" where
  "db_call_ok Alloc s = True"
| "db_call_ok (Free pp) s = (\<not> on_free_list s pp)"
| "db_call_ok (Decref pp) s = (pp_ref (pages s pp) \<noteq> 0)"

fun db_calls_ok :: "db_call list \<Rightarrow> 'w::len pmap \<Rightarrow> bool" where
  "db_calls_ok [] s = True"
| "db_calls_ok (c # cs) s =
     (db_call_ok c s
      \<and> (case db_step c s of Inl f \<Rightarrow> True | Inr s1 \<Rightarrow> db_calls_ok cs s1))"

text \<open>
  The frames in hand: those that \<open>page_alloc\<close> has returned in the sequence and that no later
  \<open>page_free\<close> has taken back. \<open>db_held cs s H\<close> follows the calls \<open>cs\<close> from the state \<open>s\<close>,
  starting with the frames \<open>H\<close> in hand.
\<close>

fun held_step :: "db_call \<Rightarrow> 'w::len pmap \<Rightarrow> frame list \<Rightarrow> frame list" where
  "held_step Alloc s H = (case page_alloc s of Inr (Inr pp, s1) \<Rightarrow> pp # H | _ \<Rightarrow> H)"
| "held_step (Free pp) s H = removeAll pp H"
| "held_step (Decref pp) s H = H"

fun db_held :: "db_call list \<Rightarrow> 'w::len pmap \<Rightarrow> frame list \<Rightarrow> frame list" where
  "db_held [] s H = H"
| "db_held (c # cs) s H =
     (case db_step c s of Inl f \<Rightarrow> H | Inr s1 \<Rightarrow> db_held cs s1 (held_step c s H))"

text \<open>
  The invariant of the frame database: the free list is a chain of distinct frames whose
  head links back to the head of the list; the frames on it have count 0 and are not in
  hand; the frames in hand have count 0; and a frame below \<open>npage\<close> with count 0 that is not
  in hand is on the list.
\<close>

definition db_inv :: "'w::len pmap \<Rightarrow> frame list \<Rightarrow> bool" where
  "db_inv s H =
     (\<exists>xs. list_path (pages s) (lh_first s) xs \<and> distinct xs \<and> head_linked s
        \<and> (\<forall>x \<in> set xs. pp_ref (pages s x) = 0 \<and> x \<notin> set H)
        \<and> (\<forall>x \<in> set H. pp_ref (pages s x) = 0)
        \<and> (\<forall>x. x < npage s \<and> pp_ref (pages s x) = 0 \<and> x \<notin> set H \<longrightarrow> x \<in> set xs))"

subsection \<open>A machine with six frames\<close>

text \<open>
  Six frames with a 16-bit count: the IO hole is frame 2, the kernel with its bootstrap
  allocations ends inside frame 3, so that \<open>page_init\<close> reserves frames 0, 2 and 3 and
  frees frames 1, 4 and 5.
\<close>

definition ex_boot :: "16 pmap" where
  "ex_boot = \<lparr>npage = 6, pages = (\<lambda>_. \<lparr>le_next = None, le_prev = None, pp_ref = 0\<rparr>),
     lh_first = None, mem = (\<lambda>_. 0), tlb_log = [],
     boot_freemem = 0xC0003800, kernel_end = 0xC0003000, maxpa = 0x6000\<rparr>"

definition ex_init :: "16 pmap" where
  "ex_init = page_init 0x2000 0x3000 ex_boot"

text \<open>
  The same machine later: the directory is frame 3, its entry 0 points to the table in
  frame 4, whose entry 1 maps frame 5 writable at \<open>0x1000\<close>; entry 1 of the directory is a
  large page over the first 4 MB; frame 1 is the only free frame.
\<close>

definition ex_mapped :: "16 pmap" where
  "ex_mapped = \<lparr>npage = 6,
     pages = (\<lambda>_. \<lparr>le_next = None, le_prev = None, pp_ref = 1\<rparr>)
               (1 := \<lparr>le_next = None, le_prev = Some Head, pp_ref = 0\<rparr>),
     lh_first = Some 1,
     mem = (\<lambda>_. 0)((3, 0) := 0x4007, (4, 1) := 0x5003, (3, 1) := 0x83),
     tlb_log = [], boot_freemem = 0xC0004000, kernel_end = 0xC0003000, maxpa = 0x6000\<rparr>"

text \<open>
  The same mapping after the count of frame 5 was reset to 0 with the mapping left in
  place, as \<^verbatim>\<open>page_check\<close> resets \<^verbatim>\<open>pp0->pp_ref\<close>.
\<close>

definition ex_uncounted :: "16 pmap" where
  "ex_uncounted = set_pp_ref 5 0 ex_mapped"

section \<open>Properties\<close>

subsection \<open>Projections of the elementary updates\<close>

lemma set_pp_ref_simps [simp]:
  "pp_ref (pages (set_pp_ref pp r s) x) = (if x = pp then r else pp_ref (pages s x))"
  "le_next (pages (set_pp_ref pp r s) x) = le_next (pages s x)"
  "le_prev (pages (set_pp_ref pp r s) x) = le_prev (pages s x)"
  "lh_first (set_pp_ref pp r s) = lh_first s"
  "mem (set_pp_ref pp r s) = mem s"
  "tlb_log (set_pp_ref pp r s) = tlb_log s"
  "npage (set_pp_ref pp r s) = npage s"
  by (simp_all add: set_pp_ref_def)

lemma LIST_INSERT_HEAD_simps [simp]:
  "pp_ref (pages (LIST_INSERT_HEAD pp s) x) = pp_ref (pages s x)"
  "lh_first (LIST_INSERT_HEAD pp s) = Some pp"
  "le_next (pages (LIST_INSERT_HEAD pp s) x) = (if x = pp then lh_first s else le_next (pages s x))"
  "le_prev (pages (LIST_INSERT_HEAD pp s) x) =
     (if x = pp then Some Head else if lh_first s = Some x then Some (Next pp)
      else le_prev (pages s x))"
  "mem (LIST_INSERT_HEAD pp s) = mem s"
  "tlb_log (LIST_INSERT_HEAD pp s) = tlb_log s"
  "npage (LIST_INSERT_HEAD pp s) = npage s"
  by (auto simp: LIST_INSERT_HEAD_def Let_def split: option.splits)

lemma free_list_links_set_pp_ref [simp]:
  "free_list_links (set_pp_ref pp r s) = free_list_links s"
  by (simp add: free_list_links_def)

lemma free_list_links_insert_cong:
  "free_list_links s = free_list_links t \<Longrightarrow>
   free_list_links (LIST_INSERT_HEAD pp s) = free_list_links (LIST_INSERT_HEAD pp t)"
  by (auto simp: free_list_links_def fun_eq_iff)

lemma page_decref_eq:
  fixes s :: "'w::len pmap"
  shows "page_decref pp s =
     Inr (if pp_ref (pages s pp) = 1 then LIST_INSERT_HEAD pp (set_pp_ref pp 0 s)
          else set_pp_ref pp (pp_ref (pages s pp) - 1) s)"
  by (auto simp: page_decref_def page_free_def Let_def)

lemma tlb_invalidate_simps [simp]:
  "pages (tlb_invalidate pgdir va s) = pages s"
  "lh_first (tlb_invalidate pgdir va s) = lh_first s"
  "mem (tlb_invalidate pgdir va s) = mem s"
  "tlb_log (tlb_invalidate pgdir va s) = va # tlb_log s"
  "npage (tlb_invalidate pgdir va s) = npage s"
  by (simp_all add: tlb_invalidate_def)

lemma free_list_links_mem_tlb [simp]:
  "free_list_links (s\<lparr>mem := m\<rparr>) = free_list_links s"
  "free_list_links (tlb_invalidate pgdir va s) = free_list_links s"
  by (simp_all add: free_list_links_def)

lemma page_alloc_keeps:
  fixes s :: "'w::len pmap"
  assumes "page_alloc s = Inr (r, s1)"
  shows "mem s1 = mem s" "tlb_log s1 = tlb_log s" "npage s1 = npage s"
  using assms
  by (auto simp: page_alloc_def LIST_REMOVE_def page_initpp_def Let_def
      split: option.splits link.splits)

subsection \<open>Entries as words\<close>

lemmas pt_defs = PDX_def PTX_def KADDR_entry_def PPN_def PTE_ADDR_def PTE_P_def PTE_PS_def
  PTE_W_def PTE_U_def pa2page_def page2pa_def JPGOFF_def

lemma flags_as_masks:
  "(0xFFF :: 32 word) = mask 12" "(0x3FFFFF :: 32 word) = mask 22"
  by (simp_all add: mask_eq_exp_minus_1)

lemma PTE_ADDR_alt: "PTE_ADDR x = push_bit 12 (drop_bit 12 x)"
  unfolding PTE_ADDR_def flags_as_masks
  by (rule bit_word_eqI) (auto simp: bit_simps)

lemma PPN_div: "PPN pa = unat pa div 4096"
proof -
  have "unat (drop_bit 12 pa) = drop_bit 12 (unat pa)" by (rule unat_drop_bit_eq)
  also have "\<dots> = unat pa div 4096" by (simp add: drop_bit_eq_div)
  finally show ?thesis by (simp add: PPN_def)
qed

lemma page2pa_PPN: "page2pa (PPN pa) = PTE_ADDR pa"
  unfolding page2pa_def PPN_def PTE_ADDR_alt by simp

lemma PPN_page2pa:
  assumes "pp < 2 ^ 20" shows "PPN (page2pa pp) = pp"
proof -
  have a: "unat (word_of_nat pp :: 32 word) = pp"
    using assms by (simp add: unat_of_nat take_bit_nat_eq_self)
  have "pp * 4096 < 2 ^ 32" using assms by simp
  then have b: "unat (push_bit 12 (word_of_nat pp :: 32 word)) = pp * 4096"
    using a by (simp add: push_bit_eq_mult unat_word_ariths)
  show ?thesis
    unfolding PPN_div page2pa_def by (simp add: b)
qed

lemma PTE_ADDR_page2pa: "PTE_ADDR (page2pa pp) = page2pa pp"
  unfolding PTE_ADDR_def flags_as_masks page2pa_def
  by (rule bit_word_eqI) (auto simp: bit_simps)

lemma PTE_ADDR_or: "PTE_ADDR (x OR y) = PTE_ADDR x OR PTE_ADDR y"
  unfolding PTE_ADDR_def
  by (rule bit_word_eqI) (auto simp: bit_simps)

lemma PTE_ADDR_consts:
  "PTE_ADDR PTE_P = 0" "PTE_ADDR PTE_W = 0" "PTE_ADDR PTE_U = 0" "PTE_ADDR PTE_PS = 0"
  by (simp_all add: PTE_ADDR_def PTE_P_def PTE_W_def PTE_U_def PTE_PS_def)

lemma PTE_ADDR_flags:
  "perm AND NOT 0xFFF = 0 \<Longrightarrow> PTE_ADDR (page2pa pp OR PTE_P OR perm) = page2pa pp"
  by (simp add: PTE_ADDR_or PTE_ADDR_consts PTE_ADDR_page2pa) (simp add: PTE_ADDR_def)

lemma present_bit: "(x OR PTE_P OR perm) AND PTE_P \<noteq> 0"
proof
  assume "(x OR PTE_P OR perm) AND PTE_P = 0"
  then have "bit ((x OR PTE_P OR perm) AND PTE_P) 0 = bit (0 :: 32 word) 0" by simp
  then show False by (simp add: bit_simps PTE_P_def)
qed

lemma PTE_ADDR_table: "PTE_ADDR (page2pa pp OR PTE_P OR PTE_W OR PTE_U) = page2pa pp"
  by (simp add: PTE_ADDR_or PTE_ADDR_consts PTE_ADDR_page2pa)

lemma jumbo_first:
  assumes "JPGOFF (PTE_ADDR pde) = 0" shows "PPN (PTE_ADDR pde) mod 1024 = 0"
proof -
  have "PTE_ADDR pde AND mask 22 = 0"
    using assms unfolding JPGOFF_def flags_as_masks .
  then have "2 ^ 22 dvd unat (PTE_ADDR pde)"
    using and_mask_dvd_nat [of 22 "PTE_ADDR pde"] by blast
  then obtain k where k: "unat (PTE_ADDR pde) = 2 ^ 22 * k" by (auto simp: dvd_def)
  have "PPN (PTE_ADDR pde) = unat (PTE_ADDR pde) div 4096"
    by (rule PPN_div)
  also have "\<dots> = 1024 * k" using k by simp
  finally show ?thesis by simp
qed

lemma jumbo_bits: "(PTE_PS OR PTE_P) AND PTE_PS \<noteq> 0" "(PTE_PS OR PTE_P) AND PTE_P \<noteq> 0"
  by (simp_all add: PTE_PS_def PTE_P_def)

subsection \<open>Lookups do not change the state\<close>

lemma pgdir_walk_nocreate:
  fixes s :: "'w::len pmap"
  shows "\<exists>r. pgdir_walk pgdir va 0 s = Inr (r, s)"
  by (simp add: pgdir_walk_def Let_def)

lemma page_lookup_total:
  fixes s :: "'w::len pmap"
  shows "\<exists>r. page_lookup pgdir va s = Inr (r, s)"
  using pgdir_walk_nocreate [of pgdir va s]
  by (auto simp: page_lookup_def split: option.splits if_splits)

lemma page_lookup_SomeD:
  fixes s :: "'w::len pmap"
  assumes "page_lookup pgdir va s = Inr (Some (A, pte), s)"
  shows "mem s (pgdir, PDX va) AND PTE_P \<noteq> 0"
    and "mem s pte AND PTE_P \<noteq> 0"
    and "A = pa2page (PTE_ADDR (mem s pte))"
    and "pte = (if mem s (pgdir, PDX va) AND PTE_PS \<noteq> 0 then (pgdir, PDX va)
                else KADDR_entry (PTE_ADDR (mem s (pgdir, PDX va))) (PTX va))"
  using assms
  by (auto simp: page_lookup_def pgdir_walk_def Let_def split: if_splits)

lemma pgdir_walk_present:
  fixes s :: "'w::len pmap"
  assumes "mem s (pgdir, PDX va) AND PTE_P \<noteq> 0"
  shows "pgdir_walk pgdir va create s =
     Inr (Some (if mem s (pgdir, PDX va) AND PTE_PS \<noteq> 0 then (pgdir, PDX va)
                else KADDR_entry (PTE_ADDR (mem s (pgdir, PDX va))) (PTX va)), s)"
  using assms by (simp add: pgdir_walk_def Let_def)

lemma page_lookup_mem_cong:
  fixes s t :: "'w::len pmap"
  assumes "page_lookup pgdir va s = Inr (r, s)" and "mem t = mem s"
  shows "page_lookup pgdir va t = Inr (r, t)"
  using assms
  by (auto simp: page_lookup_def pgdir_walk_def Let_def split: if_splits)

subsection \<open>Removing and inserting over a present mapping\<close>

lemma page_remove_mapped:
  fixes s :: "'w::len pmap"
  assumes "page_lookup pgdir va s = Inr (Some (f, pte), s)"
  shows "\<exists>s'. page_remove pgdir va s = Inr s'
      \<and> mem s' = (mem s)(pte := 0)
      \<and> tlb_log s' = va # tlb_log s
      \<and> pp_ref (pages s' f) = pp_ref (pages s f) - 1
      \<and> (\<forall>x. x \<noteq> f \<longrightarrow> pp_ref (pages s' x) = pp_ref (pages s x))
      \<and> (pp_ref (pages s f) = 1 \<longrightarrow>
            lh_first s' = Some f \<and> le_next (pages s' f) = lh_first s
            \<and> free_list_links s' = free_list_links (LIST_INSERT_HEAD f s))
      \<and> (pp_ref (pages s f) \<noteq> 1 \<longrightarrow> free_list_links s' = free_list_links s)"
  using assms
  by (auto simp: page_remove_def page_decref_eq Let_def intro!: free_list_links_insert_cong)

lemma page_insert_present:
  fixes s :: "'w::len pmap"
  assumes look: "page_lookup pgdir va s = Inr (Some (A, pte), s)"
  shows "\<exists>s3. page_decref A (tlb_invalidate pgdir va
                 ((set_pp_ref pp (pp_ref (pages s pp) + 1) s)\<lparr>mem := (mem s)(pte := 0)\<rparr>)) = Inr s3
       \<and> page_remove pgdir va (set_pp_ref pp (pp_ref (pages s pp) + 1) s) = Inr s3
       \<and> page_insert pgdir pp va perm s =
           Inr (Inr (), s3\<lparr>mem := (mem s3)(pte := page2pa pp OR PTE_P OR perm)\<rparr>)"
proof -
  let ?s2 = "set_pp_ref pp (pp_ref (pages s pp) + 1) s"
  note d = page_lookup_SomeD [OF look]
  have w: "pgdir_walk pgdir va 1 s = Inr (Some pte, s)"
    using pgdir_walk_present [OF d(1), of 1] d(4) by simp
  have l2: "page_lookup pgdir va ?s2 = Inr (Some (A, pte), ?s2)"
    by (rule page_lookup_mem_cong [OF look]) simp
  have r: "page_remove pgdir va ?s2 =
      page_decref A (tlb_invalidate pgdir va (?s2\<lparr>mem := (mem s)(pte := 0)\<rparr>))"
    by (simp add: page_remove_def l2 Let_def)
  obtain s3 where
    s3: "page_decref A (tlb_invalidate pgdir va (?s2\<lparr>mem := (mem s)(pte := 0)\<rparr>)) = Inr s3"
    by (simp add: page_decref_eq)
  show ?thesis
    using w r s3 d(2) by (simp add: page_insert_def Let_def)
qed

subsection \<open>The frame database\<close>

text \<open>
  Claim C9. \<open>page_decref\<close> never stops fatally and subtracts one from the count modulo
  \<open>2 ^ w\<close>. It frees the frame (pushes it at the head of the free list) when the count was
  1, and leaves the list structure alone for every other count. On a count that is
  already 0 the count wraps to \<open>2 ^ w - 1\<close> and the frame is not freed.
\<close>

theorem page_decref_wraps:
  fixes s :: "'w::len pmap"
  shows "\<exists>s'. page_decref pp s = Inr s'
     \<and> pp_ref (pages s' pp) = pp_ref (pages s pp) - 1
     \<and> (pp_ref (pages s pp) = 1 \<longrightarrow>
          s' = LIST_INSERT_HEAD pp (set_pp_ref pp 0 s) \<and> lh_first s' = Some pp
          \<and> le_next (pages s' pp) = lh_first s)
     \<and> (pp_ref (pages s pp) \<noteq> 1 \<longrightarrow> free_list_links s' = free_list_links s)
     \<and> (pp_ref (pages s pp) = 0 \<longrightarrow>
          unat (pp_ref (pages s' pp)) = 2 ^ LENGTH('w) - 1
          \<and> free_list_links s' = free_list_links s)"
  by (auto simp: page_decref_eq unsigned_minus_1_eq_mask mask_eq_exp_minus_1)

theorem page_decref_wraps_witness:
  "pp_ref (pages ex_init 1) = 0 \<and> pp_ref (pages ex_init 0) = 1
   \<and> (\<exists>s'. page_decref 1 ex_init = Inr s' \<and> unat (pp_ref (pages s' 1)) = 65535
          \<and> free_list_links s' = free_list_links ex_init)
   \<and> (\<exists>s'. page_decref 0 ex_init = Inr s' \<and> pp_ref (pages s' 0) = 0
          \<and> lh_first s' = Some 0 \<and> le_next (pages s' 0) = lh_first ex_init)"
proof -
  have h1: "pp_ref (pages ex_init 1) = 0" by code_simp
  have h0: "pp_ref (pages ex_init 0) = 1" by code_simp
  from page_decref_wraps [of 1 ex_init] h1
  have a: "\<exists>s'. page_decref 1 ex_init = Inr s' \<and> unat (pp_ref (pages s' 1)) = 65535
          \<and> free_list_links s' = free_list_links ex_init"
    by auto
  from page_decref_wraps [of 0 ex_init] h0
  have b: "\<exists>s'. page_decref 0 ex_init = Inr s' \<and> pp_ref (pages s' 0) = 0
          \<and> lh_first s' = Some 0 \<and> le_next (pages s' 0) = lh_first ex_init"
    by auto
  from h1 h0 a b show ?thesis by blast
qed

subsection \<open>The free list and the counts\<close>

lemma list_reach_closed:
  assumes "list_reach pg p x"
    and "\<And>a. p = Some a \<Longrightarrow> a \<in> S"
    and "\<And>a b. a \<in> S \<Longrightarrow> le_next (pg a) = Some b \<Longrightarrow> b \<in> S"
  shows "x \<in> S"
  using assms
proof (induction rule: list_reach.induct)
  case (reach_here x)
  then show ?case by simp
next
  case (reach_next x y)
  have xS: "x \<in> S" using reach_next.prems(1) by simp
  show ?case
  proof (rule reach_next.IH)
    fix a assume "le_next (pg x) = Some a"
    with xS show "a \<in> S" using reach_next.prems(2) by blast
  next
    fix a b assume "a \<in> S" "le_next (pg a) = Some b"
    then show "b \<in> S" using reach_next.prems(2) by blast
  qed
qed

lemma fold_mark_free_ref:
  "pp_ref (pages (fold mark_free xs s) y) = (if y \<in> set xs then 0 else pp_ref (pages s y))"
  by (induction xs arbitrary: s) (auto simp: mark_free_def)

lemma fold_mark_used_ref:
  "pp_ref (pages (fold mark_used xs s) y) = (if y \<in> set xs then 1 else pp_ref (pages s y))"
  by (induction xs arbitrary: s) (auto simp: mark_used_def)

lemma fold_mark_npage [simp]:
  "npage (fold mark_free xs s) = npage s" "npage (fold mark_used xs s) = npage s"
  by (induction xs arbitrary: s) (auto simp: mark_free_def mark_used_def)

lemma page_init_ref:
  fixes s :: "'w::len pmap"
  shows "pp_ref (pages (page_init io ext s) x) =
     (let ak = PPN (PADDR (ROUNDUP (boot_freemem s) PGSIZE)) in
      if ak \<le> x \<and> x < npage s then 0
      else if PPN ext \<le> x \<and> x < ak then 1
      else if PPN io \<le> x \<and> x < PPN ext then 1
      else if 1 \<le> x \<and> x < PPN io then 0
      else if x = 0 then 1 else pp_ref (pages s x))"
  by (simp add: page_init_def Let_def fold_mark_free_ref fold_mark_used_ref mark_used_def)

lemma page_init_npage [simp]: "npage (page_init io ext s) = npage s"
  by (simp add: page_init_def Let_def mark_used_def set_pp_ref_def)

lemma list_path_next:
  "list_path pg p xs \<Longrightarrow> a \<in> set xs \<Longrightarrow> le_next (pg a) = Some b \<Longrightarrow> b \<in> set xs"
proof (induction xs arbitrary: p)
  case Nil
  then show ?case by simp
next
  case (Cons x xs)
  show ?case
  proof (cases "a = x")
    case True
    with Cons.prems have "list_path pg (Some b) xs" by simp
    then have "b \<in> set xs" by (cases xs) auto
    then show ?thesis by simp
  next
    case False
    with Cons show ?thesis by auto
  qed
qed

lemma list_path_reach:
  assumes "list_path pg p xs"
  shows "list_reach pg p x \<longleftrightarrow> x \<in> set xs"
proof
  assume "list_reach pg p x"
  then show "x \<in> set xs"
  proof (rule list_reach_closed)
    fix a assume "p = Some a"
    with assms show "a \<in> set xs" by (cases xs) auto
  next
    fix a b assume "a \<in> set xs" "le_next (pg a) = Some b"
    with assms show "b \<in> set xs" by (rule list_path_next)
  qed
next
  assume "x \<in> set xs"
  with assms show "list_reach pg p x"
  proof (induction xs arbitrary: p)
    case Nil
    then show ?case by simp
  next
    case (Cons y ys)
    then show ?case by (auto intro: list_reach.intros)
  qed
qed

lemma list_path_on_free_list:
  "list_path (pages s) (lh_first s) xs \<Longrightarrow> on_free_list s x \<longleftrightarrow> x \<in> set xs"
  unfolding on_free_list_def by (rule list_path_reach)

lemma list_path_cong:
  "(\<And>a. a \<in> set xs \<Longrightarrow> le_next (pg' a) = le_next (pg a)) \<Longrightarrow>
   list_path pg' p xs = list_path pg p xs"
  by (induction xs arbitrary: p) auto

lemma list_path_set_pp_ref [simp]:
  "list_path (pages (set_pp_ref pp r s)) p xs = list_path (pages s) p xs"
  by (rule list_path_cong) simp

lemma head_linked_set_pp_ref [simp]: "head_linked (set_pp_ref pp r s) = head_linked s"
  by (simp add: head_linked_def split: option.splits)

lemma list_path_insert:
  assumes "list_path (pages s) (lh_first s) xs" and "pp \<notin> set xs"
  shows "list_path (pages (LIST_INSERT_HEAD pp s)) (lh_first (LIST_INSERT_HEAD pp s)) (pp # xs)"
    and "head_linked (LIST_INSERT_HEAD pp s)"
proof -
  have "list_path (pages (LIST_INSERT_HEAD pp s)) (lh_first s) xs = list_path (pages s) (lh_first s) xs"
    using assms(2) by (intro list_path_cong) auto
  with assms(1) show "list_path (pages (LIST_INSERT_HEAD pp s)) (lh_first (LIST_INSERT_HEAD pp s)) (pp # xs)"
    by simp
  show "head_linked (LIST_INSERT_HEAD pp s)" by (simp add: head_linked_def)
qed

lemma page_alloc_head:
  fixes s :: "'w::len pmap"
  assumes "lh_first s = Some pp" and "le_prev (pages s pp) = Some Head"
  shows "\<exists>s1. page_alloc s = Inr (Inr pp, s1)
      \<and> lh_first s1 = le_next (pages s pp)
      \<and> (\<forall>a. le_next (pages s1 a) = (if a = pp then None else le_next (pages s a)))
      \<and> (\<forall>a. le_prev (pages s1 a) =
              (if a = pp then None else if le_next (pages s pp) = Some a then Some Head
               else le_prev (pages s a)))
      \<and> (\<forall>a. pp_ref (pages s1 a) = (if a = pp then 0 else pp_ref (pages s a)))
      \<and> npage s1 = npage s"
  using assms
  by (auto simp: page_alloc_def LIST_REMOVE_def page_initpp_def Let_def split: option.splits)

lemma db_step_npage:
  fixes s :: "'w::len pmap"
  assumes "db_step c s = Inr s1"
  shows "npage s1 = npage s"
proof (cases c)
  case Alloc
  with assms obtain r where "page_alloc s = Inr (r, s1)" by (auto split: sum.splits)
  then show ?thesis by (rule page_alloc_keeps)
next
  case (Free pp)
  with assms show ?thesis by (auto simp: page_free_def split: if_splits)
next
  case (Decref pp)
  with assms show ?thesis by (auto simp: page_decref_eq split: if_splits)
qed

lemma db_invI:
  assumes "list_path (pages s) (lh_first s) xs" "distinct xs" "head_linked s"
    and "\<And>x. x \<in> set xs \<Longrightarrow> pp_ref (pages s x) = 0 \<and> x \<notin> set H"
    and "\<And>x. x \<in> set H \<Longrightarrow> pp_ref (pages s x) = 0"
    and "\<And>x. x < npage s \<Longrightarrow> pp_ref (pages s x) = 0 \<Longrightarrow> x \<notin> set H \<Longrightarrow> x \<in> set xs"
  shows "db_inv s H"
  unfolding db_inv_def using assms by blast

lemma db_invD:
  assumes "db_inv s H"
  shows "\<exists>xs. list_path (pages s) (lh_first s) xs \<and> distinct xs \<and> head_linked s
     \<and> (\<forall>x. x \<in> set xs \<longrightarrow> pp_ref (pages s x) = 0)
     \<and> (\<forall>x. x \<in> set xs \<longrightarrow> x \<notin> set H)
     \<and> (\<forall>x. x \<in> set H \<longrightarrow> pp_ref (pages s x) = 0)
     \<and> (\<forall>x. x < npage s \<longrightarrow> pp_ref (pages s x) = 0 \<longrightarrow> x \<notin> set H \<longrightarrow> x \<in> set xs)"
  using assms unfolding db_inv_def by blast

lemma db_inv_insert:
  fixes s :: "'w::len pmap"
  assumes inv: "db_inv s H" and z: "pp_ref (pages s pp) = 0" and off: "\<not> on_free_list s pp"
  shows "db_inv (LIST_INSERT_HEAD pp s) (removeAll pp H)"
proof -
  from db_invD [OF inv] obtain xs where
    p: "list_path (pages s) (lh_first s) xs" and d: "distinct xs" and hl: "head_linked s"
    and r: "\<forall>x. x \<in> set xs \<longrightarrow> pp_ref (pages s x) = 0"
    and h: "\<forall>x. x \<in> set xs \<longrightarrow> x \<notin> set H"
    and hr: "\<forall>x. x \<in> set H \<longrightarrow> pp_ref (pages s x) = 0"
    and c: "\<forall>x. x < npage s \<longrightarrow> pp_ref (pages s x) = 0 \<longrightarrow> x \<notin> set H \<longrightarrow> x \<in> set xs"
    by blast
  note r = r [rule_format] and h = h [rule_format] and hr = hr [rule_format]
    and c = c [rule_format]
  have n: "pp \<notin> set xs" using off list_path_on_free_list [OF p] by simp
  show ?thesis
  proof (rule db_invI [where xs = "pp # xs"])
    show "list_path (pages (LIST_INSERT_HEAD pp s)) (lh_first (LIST_INSERT_HEAD pp s)) (pp # xs)"
      by (rule list_path_insert [OF p n])
    show "distinct (pp # xs)" using d n by simp
    show "head_linked (LIST_INSERT_HEAD pp s)" by (rule list_path_insert [OF p n])
  next
    fix x assume "x \<in> set (pp # xs)"
    then show "pp_ref (pages (LIST_INSERT_HEAD pp s) x) = 0 \<and> x \<notin> set (removeAll pp H)"
      using z r h by auto
  next
    fix x assume "x \<in> set (removeAll pp H)"
    then show "pp_ref (pages (LIST_INSERT_HEAD pp s) x) = 0" using hr by simp
  next
    fix x assume "x < npage (LIST_INSERT_HEAD pp s)"
      "pp_ref (pages (LIST_INSERT_HEAD pp s) x) = 0" "x \<notin> set (removeAll pp H)"
    then show "x \<in> set (pp # xs)" using c [of x] by auto
  qed
qed

lemma db_inv_alloc:
  fixes s :: "'w::len pmap"
  assumes inv: "db_inv s H" and a: "page_alloc s = Inr (r, s1)"
  shows "db_inv s1 (held_step Alloc s H)"
proof -
  from db_invD [OF inv] obtain xs where
    p: "list_path (pages s) (lh_first s) xs" and d: "distinct xs" and hl: "head_linked s"
    and rf: "\<forall>x. x \<in> set xs \<longrightarrow> pp_ref (pages s x) = 0"
    and h: "\<forall>x. x \<in> set xs \<longrightarrow> x \<notin> set H"
    and hr: "\<forall>x. x \<in> set H \<longrightarrow> pp_ref (pages s x) = 0"
    and c: "\<forall>x. x < npage s \<longrightarrow> pp_ref (pages s x) = 0 \<longrightarrow> x \<notin> set H \<longrightarrow> x \<in> set xs"
    by blast
  note rf = rf [rule_format] and h = h [rule_format] and hr = hr [rule_format]
    and c = c [rule_format]
  show ?thesis
  proof (cases xs)
    case Nil
    with p have e: "lh_first s = None" by simp
    then have "page_alloc s = Inr (Inl E_NO_MEM, s)" by (simp add: page_alloc_def)
    with a have "s1 = s" "held_step Alloc s H = H" by auto
    with inv show ?thesis by simp
  next
    case (Cons pp rest)
    with p have hd: "lh_first s = Some pp" and pr: "list_path (pages s) (le_next (pages s pp)) rest"
      by simp_all
    from hl hd have bl: "le_prev (pages s pp) = Some Head" by (simp add: head_linked_def)
    from page_alloc_head [OF hd bl] a have
      r: "r = Inr pp"
      and l1: "lh_first s1 = le_next (pages s pp)"
      and n1: "\<And>a. le_next (pages s1 a) = (if a = pp then None else le_next (pages s a))"
      and p1: "\<And>a. le_prev (pages s1 a) =
              (if a = pp then None else if le_next (pages s pp) = Some a then Some Head
               else le_prev (pages s a))"
      and r1: "\<And>a. pp_ref (pages s1 a) = (if a = pp then 0 else pp_ref (pages s a))"
      and np: "npage s1 = npage s"
      by auto
    have nr: "pp \<notin> set rest" using d Cons by simp
    have hs: "held_step Alloc s H = pp # H" using a r by simp
    show ?thesis
      unfolding hs
    proof (rule db_invI [where xs = rest])
      have "list_path (pages s1) (le_next (pages s pp)) rest
          = list_path (pages s) (le_next (pages s pp)) rest"
        using nr by (intro list_path_cong) (auto simp: n1)
      with pr show "list_path (pages s1) (lh_first s1) rest" by (simp add: l1)
      show "distinct rest" using d Cons by simp
      show "head_linked s1"
      proof (cases rest)
        case Nil
        with pr show ?thesis by (simp add: head_linked_def l1)
      next
        case (Cons n rest')
        with pr have "le_next (pages s pp) = Some n" by simp
        moreover have "n \<noteq> pp" using nr Cons by auto
        ultimately show ?thesis by (simp add: head_linked_def l1 p1)
      qed
    next
      fix x assume x: "x \<in> set rest"
      then have "x \<noteq> pp" using nr by auto
      moreover have "x \<in> set xs" using x Cons by simp
      ultimately show "pp_ref (pages s1 x) = 0 \<and> x \<notin> set (pp # H)"
        using rf [of x] h [of x] by (simp add: r1)
    next
      fix x assume "x \<in> set (pp # H)"
      then show "pp_ref (pages s1 x) = 0" using hr by (auto simp: r1)
    next
      fix x assume "x < npage s1" "pp_ref (pages s1 x) = 0" "x \<notin> set (pp # H)"
      then have "x \<in> set xs" using c [of x] by (auto simp: r1 np split: if_splits)
      moreover have "x \<noteq> pp" using \<open>x \<notin> set (pp # H)\<close> by simp
      ultimately show "x \<in> set rest" using Cons by simp
    qed
  qed
qed

lemma db_inv_set_pp_ref:
  fixes s :: "'w::len pmap"
  assumes inv: "db_inv s H" and nz: "pp_ref (pages s pp) \<noteq> 0" and r: "r \<noteq> 0"
  shows "db_inv (set_pp_ref pp r s) H"
proof -
  from db_invD [OF inv] obtain xs where
    p: "list_path (pages s) (lh_first s) xs" and d: "distinct xs" and hl: "head_linked s"
    and rf: "\<forall>x. x \<in> set xs \<longrightarrow> pp_ref (pages s x) = 0"
    and h: "\<forall>x. x \<in> set xs \<longrightarrow> x \<notin> set H"
    and hr: "\<forall>x. x \<in> set H \<longrightarrow> pp_ref (pages s x) = 0"
    and c: "\<forall>x. x < npage s \<longrightarrow> pp_ref (pages s x) = 0 \<longrightarrow> x \<notin> set H \<longrightarrow> x \<in> set xs"
    by blast
  note rf = rf [rule_format] and h = h [rule_format] and hr = hr [rule_format]
    and c = c [rule_format]
  show ?thesis
  proof (rule db_invI [where xs = xs])
    show "list_path (pages (set_pp_ref pp r s)) (lh_first (set_pp_ref pp r s)) xs"
      using p by simp
    show "distinct xs" by (rule d)
    show "head_linked (set_pp_ref pp r s)" using hl by simp
  next
    fix x assume "x \<in> set xs"
    then show "pp_ref (pages (set_pp_ref pp r s) x) = 0 \<and> x \<notin> set H"
      using rf [of x] h [of x] nz by auto
  next
    fix x assume "x \<in> set H"
    then show "pp_ref (pages (set_pp_ref pp r s) x) = 0" using hr [of x] nz by auto
  next
    fix x assume "x < npage (set_pp_ref pp r s)" "pp_ref (pages (set_pp_ref pp r s) x) = 0"
      "x \<notin> set H"
    then show "x \<in> set xs" using c [of x] r by (auto split: if_splits)
  qed
qed

lemma db_inv_decref_free:
  fixes s :: "'w::len pmap"
  assumes inv: "db_inv s H" and one: "pp_ref (pages s pp) = 1"
  shows "db_inv (LIST_INSERT_HEAD pp (set_pp_ref pp 0 s)) H"
proof -
  from db_invD [OF inv] obtain xs where
    p: "list_path (pages s) (lh_first s) xs" and d: "distinct xs" and hl: "head_linked s"
    and rf: "\<forall>x. x \<in> set xs \<longrightarrow> pp_ref (pages s x) = 0"
    and h: "\<forall>x. x \<in> set xs \<longrightarrow> x \<notin> set H"
    and hr: "\<forall>x. x \<in> set H \<longrightarrow> pp_ref (pages s x) = 0"
    and c: "\<forall>x. x < npage s \<longrightarrow> pp_ref (pages s x) = 0 \<longrightarrow> x \<notin> set H \<longrightarrow> x \<in> set xs"
    by blast
  note rf = rf [rule_format] and h = h [rule_format] and hr = hr [rule_format]
    and c = c [rule_format]
  have n: "pp \<notin> set xs" using rf [of pp] one by auto
  have nh: "pp \<notin> set H" using hr [of pp] one by auto
  let ?t = "set_pp_ref pp 0 s"
  have pt: "list_path (pages ?t) (lh_first ?t) xs" using p by simp
  show ?thesis
  proof (rule db_invI [where xs = "pp # xs"])
    show "list_path (pages (LIST_INSERT_HEAD pp ?t)) (lh_first (LIST_INSERT_HEAD pp ?t)) (pp # xs)"
      by (rule list_path_insert [OF pt n])
    show "distinct (pp # xs)" using d n by simp
    show "head_linked (LIST_INSERT_HEAD pp ?t)" by (rule list_path_insert [OF pt n])
  next
    fix x assume "x \<in> set (pp # xs)"
    then show "pp_ref (pages (LIST_INSERT_HEAD pp ?t) x) = 0 \<and> x \<notin> set H"
      using rf [of x] h [of x] nh by auto
  next
    fix x assume "x \<in> set H"
    then show "pp_ref (pages (LIST_INSERT_HEAD pp ?t) x) = 0" using hr [of x] by auto
  next
    fix x assume "x < npage (LIST_INSERT_HEAD pp ?t)"
      "pp_ref (pages (LIST_INSERT_HEAD pp ?t) x) = 0" "x \<notin> set H"
    then show "x \<in> set (pp # xs)" using c [of x] by (auto split: if_splits)
  qed
qed

lemma db_step_inv:
  fixes s :: "'w::len pmap"
  assumes inv: "db_inv s H" and st: "db_step c s = Inr s1" and ok: "db_call_ok c s"
  shows "db_inv s1 (held_step c s H)"
proof (cases c)
  case Alloc
  with st obtain r where "page_alloc s = Inr (r, s1)" by (auto split: sum.splits)
  with inv show ?thesis unfolding Alloc by (rule db_inv_alloc)
next
  case (Free pp)
  with st have z: "pp_ref (pages s pp) = 0" and s1: "s1 = LIST_INSERT_HEAD pp s"
    by (auto simp: page_free_def split: if_splits)
  from ok Free have off: "\<not> on_free_list s pp" by simp
  show ?thesis unfolding Free s1 using db_inv_insert [OF inv z off] by simp
next
  case (Decref pp)
  with ok have nz: "pp_ref (pages s pp) \<noteq> 0" by simp
  have s1: "s1 = (if pp_ref (pages s pp) = 1 then LIST_INSERT_HEAD pp (set_pp_ref pp 0 s)
          else set_pp_ref pp (pp_ref (pages s pp) - 1) s)"
    using st Decref by (simp add: page_decref_eq)
  show ?thesis
  proof (cases "pp_ref (pages s pp) = 1")
    case True
    then show ?thesis unfolding Decref s1 using db_inv_decref_free [OF inv True] by simp
  next
    case False
    then have "pp_ref (pages s pp) - 1 \<noteq> 0" by simp
    then show ?thesis unfolding Decref s1 using False db_inv_set_pp_ref [OF inv nz] by simp
  qed
qed

lemma db_run_inv:
  fixes s :: "'w::len pmap"
  assumes "db_inv s H" "db_run cs s = Inr s'" "db_calls_ok cs s"
  shows "db_inv s' (db_held cs s H) \<and> npage s' = npage s"
  using assms
proof (induction cs arbitrary: s H)
  case Nil
  then show ?case by simp
next
  case (Cons c cs)
  from Cons.prems(2) obtain s1 where st: "db_step c s = Inr s1" and run: "db_run cs s1 = Inr s'"
    by (auto split: sum.splits)
  from Cons.prems(3) st have ok: "db_call_ok c s" and rest: "db_calls_ok cs s1" by simp_all
  have "db_inv s1 (held_step c s H)" by (rule db_step_inv [OF Cons.prems(1) st ok])
  from Cons.IH [OF this run rest] db_step_npage [OF st] st
  show ?case by simp
qed

lemma fold_mark_used_path [simp]:
  "list_path (pages (fold mark_used ys s)) p xs = list_path (pages s) p xs"
  "lh_first (fold mark_used ys s) = lh_first s"
  "head_linked (fold mark_used ys s) = head_linked s"
  by (induction ys arbitrary: s) (simp_all add: mark_used_def)

lemma fold_mark_free_path:
  assumes "list_path (pages s) (lh_first s) xs" and "distinct ys" and "set ys \<inter> set xs = {}"
    and "head_linked s"
  shows "list_path (pages (fold mark_free ys s)) (lh_first (fold mark_free ys s)) (rev ys @ xs)
     \<and> head_linked (fold mark_free ys s)"
  using assms
proof (induction ys arbitrary: s xs)
  case Nil
  then show ?case by simp
next
  case (Cons a ys)
  let ?t = "set_pp_ref a 0 s"
  have pt: "list_path (pages ?t) (lh_first ?t) xs" using Cons.prems(1) by simp
  have n: "a \<notin> set xs" using Cons.prems(3) by simp
  have 1: "list_path (pages (mark_free a s)) (lh_first (mark_free a s)) (a # xs)"
    unfolding mark_free_def by (rule list_path_insert [OF pt n])
  have 2: "head_linked (mark_free a s)"
    unfolding mark_free_def by (rule list_path_insert [OF pt n])
  have 3: "set ys \<inter> set (a # xs) = {}" using Cons.prems(2,3) by auto
  from Cons.IH [OF 1 _ 3 2] Cons.prems(2) show ?case by simp
qed

lemma page_init_inv:
  fixes s :: "'w::len pmap"
  assumes io: "PPN io \<le> PPN ext"
    and ext: "PPN ext \<le> PPN (PADDR (ROUNDUP (boot_freemem s) PGSIZE))"
  shows "db_inv (page_init io ext s) []"
proof -
  let ?ak = "PPN (PADDR (ROUNDUP (boot_freemem s) PGSIZE))"
  let ?s1 = "mark_used 0 (s\<lparr>lh_first := None\<rparr>)"
  let ?s2 = "fold mark_free [1 ..< PPN io] ?s1"
  let ?s4 = "fold mark_used [PPN ext ..< ?ak] (fold mark_used [PPN io ..< PPN ext] ?s2)"
  let ?xs = "rev [?ak ..< npage s] @ rev [1 ..< PPN io]"
  have e: "page_init io ext s = fold mark_free [?ak ..< npage s] ?s4"
    by (simp add: page_init_def Let_def)
  have p1: "list_path (pages ?s1) (lh_first ?s1) []" "head_linked ?s1"
    by (simp_all add: mark_used_def head_linked_def)
  from fold_mark_free_path [OF p1(1) _ _ p1(2), of "[1 ..< PPN io]"]
  have p2: "list_path (pages ?s2) (lh_first ?s2) (rev [1 ..< PPN io])" "head_linked ?s2"
    by simp_all
  then have p4: "list_path (pages ?s4) (lh_first ?s4) (rev [1 ..< PPN io])" "head_linked ?s4"
    by simp_all
  have dj: "set [?ak ..< npage s] \<inter> set (rev [1 ..< PPN io]) = {}"
    using io ext by auto
  from fold_mark_free_path [OF p4(1) _ dj p4(2)]
  have p5: "list_path (pages (page_init io ext s)) (lh_first (page_init io ext s)) ?xs"
    "head_linked (page_init io ext s)"
    unfolding e by simp_all
  show ?thesis
  proof (rule db_invI [where xs = ?xs])
    show "list_path (pages (page_init io ext s)) (lh_first (page_init io ext s)) ?xs"
      by (rule p5)
    show "distinct ?xs" using io ext by auto
    show "head_linked (page_init io ext s)" by (rule p5)
  next
    fix x assume "x \<in> set ?xs"
    then show "pp_ref (pages (page_init io ext s) x) = 0 \<and> x \<notin> set []"
      using io ext by (auto simp: page_init_ref Let_def)
  next
    fix x :: frame assume "x \<in> set []"
    then show "pp_ref (pages (page_init io ext s) x) = 0" by simp
  next
    fix x assume "x < npage (page_init io ext s)" "pp_ref (pages (page_init io ext s) x) = 0"
    then show "x \<in> set ?xs"
      using io ext by (auto simp: page_init_ref Let_def split: if_splits)
  qed
qed

lemma db_reachable_inv:
  fixes s0 :: "'w::len pmap"
  assumes "PPN io \<le> PPN ext" "PPN ext \<le> PPN (PADDR (ROUNDUP (boot_freemem s0) PGSIZE))"
    and "db_run cs (page_init io ext s0) = Inr s'" "db_calls_ok cs (page_init io ext s0)"
  shows "db_inv s' (db_held cs (page_init io ext s0) [])" and "npage s' = npage s0"
  using db_run_inv [OF page_init_inv [OF assms(1,2)] assms(3,4)] by simp_all

lemma head_linked_alloc:
  fixes s :: "'w::len pmap"
  assumes "head_linked s"
  shows "\<not> isl (page_alloc s)"
proof (cases "lh_first s")
  case None
  then show ?thesis by (simp add: page_alloc_def)
next
  case (Some pp)
  with assms have "le_prev (pages s pp) = Some Head" by (simp add: head_linked_def)
  from page_alloc_head [OF Some this] show ?thesis by auto
qed

text \<open>
  Claim C1, amended. Let the IO hole lie below extended memory and extended memory below
  the end of the bootstrap allocations. Right after \<open>page_init\<close> a frame below \<open>npage\<close> is on
  the free list exactly when its count is 0. After every sequence of \<open>page_alloc\<close>,
  \<open>page_free\<close> and \<open>page_decref\<close> calls from that state which does not stop fatally,
  applies \<open>page_decref\<close> only to counts that are not 0 and \<open>page_free\<close> only to frames that
  are not on the free list, the frames on the free list are exactly the frames with
  count 0 that are not in hand, a frame being in hand from the \<open>page_alloc\<close> that returned
  it to the \<open>page_free\<close> that takes it back: every frame on the list has count 0 and is not
  in hand, every frame below \<open>npage\<close> with count 0 that is not in hand is on the list, and
  every frame in hand has count 0 and is off the list.
\<close>

theorem free_list_refcount_zero:
  fixes s0 :: "'w::len pmap"
  assumes io: "PPN io \<le> PPN ext"
    and ext: "PPN ext \<le> PPN (PADDR (ROUNDUP (boot_freemem s0) PGSIZE))"
  shows "(\<forall>x. x < npage s0 \<longrightarrow>
           (on_free_list (page_init io ext s0) x \<longleftrightarrow> pp_ref (pages (page_init io ext s0) x) = 0))
     \<and> (\<forall>cs s'. db_run cs (page_init io ext s0) = Inr s'
                 \<and> db_calls_ok cs (page_init io ext s0) \<longrightarrow>
           (\<forall>x. on_free_list s' x \<longrightarrow>
                  pp_ref (pages s' x) = 0 \<and> x \<notin> set (db_held cs (page_init io ext s0) []))
         \<and> (\<forall>x. x < npage s0 \<and> pp_ref (pages s' x) = 0
                  \<and> x \<notin> set (db_held cs (page_init io ext s0) []) \<longrightarrow> on_free_list s' x)
         \<and> (\<forall>x. x \<in> set (db_held cs (page_init io ext s0) []) \<longrightarrow>
                  pp_ref (pages s' x) = 0 \<and> \<not> on_free_list s' x))"
proof -
  let ?i = "page_init io ext s0"
  have run: "(\<forall>x. on_free_list s' x \<longrightarrow> pp_ref (pages s' x) = 0 \<and> x \<notin> set (db_held cs ?i []))
         \<and> (\<forall>x. x < npage s0 \<and> pp_ref (pages s' x) = 0 \<and> x \<notin> set (db_held cs ?i [])
                \<longrightarrow> on_free_list s' x)
         \<and> (\<forall>x. x \<in> set (db_held cs ?i []) \<longrightarrow> pp_ref (pages s' x) = 0 \<and> \<not> on_free_list s' x)"
    if r: "db_run cs ?i = Inr s'" and ok: "db_calls_ok cs ?i" for cs s'
  proof -
    note inv = db_reachable_inv [OF io ext r ok]
    from db_invD [OF inv(1)] obtain xs where
      p: "list_path (pages s') (lh_first s') xs"
      and rf: "\<forall>x. x \<in> set xs \<longrightarrow> pp_ref (pages s' x) = 0"
      and h: "\<forall>x. x \<in> set xs \<longrightarrow> x \<notin> set (db_held cs ?i [])"
      and hr: "\<forall>x. x \<in> set (db_held cs ?i []) \<longrightarrow> pp_ref (pages s' x) = 0"
      and c: "\<forall>x. x < npage s' \<longrightarrow> pp_ref (pages s' x) = 0 \<longrightarrow>
                 x \<notin> set (db_held cs ?i []) \<longrightarrow> x \<in> set xs"
      by blast
    note l = list_path_on_free_list [OF p]
    show ?thesis using rf h hr c by (auto simp: l inv(2))
  qed
  have "db_run [] ?i = Inr ?i" "db_calls_ok [] ?i" "db_held [] ?i [] = []" by simp_all
  from run [OF this(1,2)] have init: "\<forall>x. x < npage s0 \<longrightarrow>
           (on_free_list ?i x \<longleftrightarrow> pp_ref (pages ?i x) = 0)"
    by auto
  from init run show ?thesis by blast
qed

theorem free_list_refcount_zero_witness:
  "PPN 0x2000 \<le> PPN 0x3000
   \<and> PPN 0x3000 \<le> PPN (PADDR (ROUNDUP (boot_freemem ex_boot) PGSIZE))
   \<and> on_free_list ex_init 4 \<and> pp_ref (pages ex_init 4) = 0
   \<and> \<not> isl (db_run [Alloc, Decref 2, Free 5, Alloc] ex_init)
   \<and> db_calls_ok [Alloc, Decref 2, Free 5, Alloc] ex_init
   \<and> db_held [Alloc, Decref 2, Free 5, Alloc] ex_init [] = [5]
   \<and> on_free_list (projr (db_run [Alloc, Decref 2, Free 5, Alloc] ex_init)) 2
   \<and> pp_ref (pages (projr (db_run [Alloc, Decref 2, Free 5, Alloc] ex_init)) 2) = 0
   \<and> pp_ref (pages (projr (db_run [Alloc, Decref 2, Free 5, Alloc] ex_init)) 1) = 0
   \<and> on_free_list (projr (db_run [Alloc, Decref 2, Free 5, Alloc] ex_init)) 1
   \<and> pp_ref (pages (projr (db_run [Alloc, Decref 2, Free 5, Alloc] ex_init)) 5) = 0
   \<and> \<not> on_free_list (projr (db_run [Alloc, Decref 2, Free 5, Alloc] ex_init)) 5"
proof -
  let ?cs = "[Alloc, Decref 2, Free 5, Alloc]"
  let ?s = "projr (db_run ?cs ex_init)"
  have h: "PPN 0x2000 \<le> PPN 0x3000"
    "PPN 0x3000 \<le> PPN (PADDR (ROUNDUP (boot_freemem ex_boot) PGSIZE))"
    by code_simp+
  have n: "(4::nat) < npage ex_boot" "(1::nat) < npage ex_boot" by code_simp+
  have z: "pp_ref (pages ex_init 4) = 0" by code_simp
  have r: "\<not> isl (db_run ?cs ex_init)" by code_simp
  have d: "db_calls_ok ?cs ex_init" by code_simp
  have hd: "db_held ?cs ex_init [] = [5]" by code_simp
  have m: "on_free_list ?s 2" by code_simp
  have z1: "pp_ref (pages ?s 1) = 0" by code_simp
  have e: "db_run ?cs ex_init = Inr ?s"
    using r by simp
  note t = free_list_refcount_zero [OF h, folded ex_init_def]
  from t n(1) z have a: "on_free_list ex_init 4" by blast
  from t e d m have b: "pp_ref (pages ?s 2) = 0" by blast
  have nh: "1 \<notin> set (db_held ?cs ex_init [])" "5 \<in> set (db_held ?cs ex_init [])"
    by (subst hd, simp)+
  from t e d n(2) z1 nh(1) have c: "on_free_list ?s 1" by blast
  from t e d nh(2) have f: "pp_ref (pages ?s 5) = 0 \<and> \<not> on_free_list ?s 5" by blast
  from h a z r d hd m b z1 c f show ?thesis by blast
qed

text \<open>
  The claim as stated fails on the machine with six frames, in three ways. After one
  \<open>page_alloc\<close> from the initial state, frame 5 has count 0 and is off the free list. After
  one \<open>page_decref\<close> of the free frame 1, that frame is still on the free list and its count
  is \<open>2 ^ 16 - 1\<close>. After one \<open>page_free\<close> of frame 4, which is on the free list already, the
  list runs in a circle through frames 4 and 5, and frame 1 has count 0, was never handed
  out and is off the list.
\<close>

theorem free_list_refcount_zero_counterexample:
  "\<not> isl (db_run [Alloc] ex_init)
   \<and> pp_ref (pages (projr (db_run [Alloc] ex_init)) 5) = 0
   \<and> \<not> on_free_list (projr (db_run [Alloc] ex_init)) 5
   \<and> \<not> isl (db_run [Decref 1] ex_init)
   \<and> on_free_list (projr (db_run [Decref 1] ex_init)) 1
   \<and> pp_ref (pages (projr (db_run [Decref 1] ex_init)) 1) = 65535
   \<and> \<not> isl (db_run [Free 4] ex_init)
   \<and> db_held [Free 4] ex_init [] = []
   \<and> pp_ref (pages (projr (db_run [Free 4] ex_init)) 1) = 0
   \<and> \<not> on_free_list (projr (db_run [Free 4] ex_init)) 1"
proof -
  let ?s = "projr (db_run [Free 4] ex_init)"
  have a: "\<not> isl (db_run [Alloc] ex_init)
   \<and> pp_ref (pages (projr (db_run [Alloc] ex_init)) 5) = 0
   \<and> \<not> on_free_list (projr (db_run [Alloc] ex_init)) 5
   \<and> \<not> isl (db_run [Decref 1] ex_init)
   \<and> on_free_list (projr (db_run [Decref 1] ex_init)) 1
   \<and> pp_ref (pages (projr (db_run [Decref 1] ex_init)) 1) = 65535
   \<and> \<not> isl (db_run [Free 4] ex_init)
   \<and> db_held [Free 4] ex_init [] = []
   \<and> pp_ref (pages ?s 1) = 0"
    by code_simp
  have l: "lh_first ?s = Some 4" "le_next (pages ?s 4) = Some 5" "le_next (pages ?s 5) = Some 4"
    by code_simp+
  have "\<not> on_free_list ?s 1"
  proof
    assume "on_free_list ?s 1"
    then have "(1::nat) \<in> {4, 5}"
      unfolding on_free_list_def
    proof (rule list_reach_closed)
      fix a assume "lh_first ?s = Some a"
      then show "a \<in> {4, 5}" using l(1) by simp
    next
      fix a b assume "a \<in> {4, 5}" "le_next (pages ?s a) = Some b"
      then show "b \<in> {4, 5}" using l(2,3) by auto
    qed
    then show False by simp
  qed
  with a show ?thesis by blast
qed

text \<open>
  Claim C7, amended. With an empty free list \<open>page_alloc\<close> returns \<open>-E_NO_MEM\<close> and leaves the
  state as it is. With a head \<open>pp\<close> whose back link is the head of the list, it returns \<open>pp\<close>
  without stopping: the list now starts at the successor of \<open>pp\<close>, the descriptor of \<open>pp\<close> has
  count 0 and null links, and no other count, no forward link and no frame content
  changes. The head has that back link, and \<open>page_alloc\<close> does not stop, in every state
  reached from \<open>page_init\<close> (with the IO hole below extended memory below the end of the
  bootstrap allocations) by calls of \<open>page_alloc\<close>, \<open>page_free\<close> and \<open>page_decref\<close> that do
  not stop fatally, apply \<open>page_decref\<close> only to counts that are not 0 and \<open>page_free\<close> only
  to frames that are not on the free list.
\<close>

theorem page_alloc_spec:
  fixes s :: "'w::len pmap"
  shows "(lh_first s = None \<longrightarrow> page_alloc s = Inr (Inl E_NO_MEM, s))
     \<and> (\<forall>pp. lh_first s = Some pp \<and> le_prev (pages s pp) = Some Head \<longrightarrow>
          (\<exists>s'. page_alloc s = Inr (Inr pp, s')
              \<and> lh_first s' = le_next (pages s pp)
              \<and> pages s' pp = \<lparr>le_next = None, le_prev = None, pp_ref = 0\<rparr>
              \<and> (\<forall>x. x \<noteq> pp \<longrightarrow> pp_ref (pages s' x) = pp_ref (pages s x)
                                 \<and> le_next (pages s' x) = le_next (pages s x))
              \<and> (\<forall>n. le_next (pages s pp) = Some n \<and> n \<noteq> pp \<longrightarrow>
                       le_prev (pages s' n) = Some Head)
              \<and> mem s' = mem s \<and> tlb_log s' = tlb_log s \<and> npage s' = npage s))
     \<and> (\<forall>io ext cs. \<forall>s0 :: 'w pmap.
            PPN io \<le> PPN ext \<and> PPN ext \<le> PPN (PADDR (ROUNDUP (boot_freemem s0) PGSIZE))
          \<and> db_run cs (page_init io ext s0) = Inr s \<and> db_calls_ok cs (page_init io ext s0) \<longrightarrow>
            (\<forall>pp. lh_first s = Some pp \<longrightarrow> le_prev (pages s pp) = Some Head)
          \<and> \<not> isl (page_alloc s))"
proof (intro conjI)
  show "lh_first s = None \<longrightarrow> page_alloc s = Inr (Inl E_NO_MEM, s)"
    by (simp add: page_alloc_def)
  show "\<forall>pp. lh_first s = Some pp \<and> le_prev (pages s pp) = Some Head \<longrightarrow>
          (\<exists>s'. page_alloc s = Inr (Inr pp, s')
              \<and> lh_first s' = le_next (pages s pp)
              \<and> pages s' pp = \<lparr>le_next = None, le_prev = None, pp_ref = 0\<rparr>
              \<and> (\<forall>x. x \<noteq> pp \<longrightarrow> pp_ref (pages s' x) = pp_ref (pages s x)
                                 \<and> le_next (pages s' x) = le_next (pages s x))
              \<and> (\<forall>n. le_next (pages s pp) = Some n \<and> n \<noteq> pp \<longrightarrow>
                       le_prev (pages s' n) = Some Head)
              \<and> mem s' = mem s \<and> tlb_log s' = tlb_log s \<and> npage s' = npage s)"
    by (auto simp: page_alloc_def LIST_REMOVE_def page_initpp_def Let_def split: option.splits)
  show "\<forall>io ext cs. \<forall>s0 :: 'w pmap.
            PPN io \<le> PPN ext \<and> PPN ext \<le> PPN (PADDR (ROUNDUP (boot_freemem s0) PGSIZE))
          \<and> db_run cs (page_init io ext s0) = Inr s \<and> db_calls_ok cs (page_init io ext s0) \<longrightarrow>
            (\<forall>pp. lh_first s = Some pp \<longrightarrow> le_prev (pages s pp) = Some Head)
          \<and> \<not> isl (page_alloc s)"
  proof (intro allI impI, elim conjE)
    fix io ext cs and s0 :: "'w pmap"
    assume "PPN io \<le> PPN ext" "PPN ext \<le> PPN (PADDR (ROUNDUP (boot_freemem s0) PGSIZE))"
      "db_run cs (page_init io ext s0) = Inr s" "db_calls_ok cs (page_init io ext s0)"
    then have "db_inv s (db_held cs (page_init io ext s0) [])" by (rule db_reachable_inv)
    then have hl: "head_linked s" by (auto dest: db_invD)
    then have "\<forall>pp. lh_first s = Some pp \<longrightarrow> le_prev (pages s pp) = Some Head"
      by (auto simp: head_linked_def)
    with head_linked_alloc [OF hl]
    show "(\<forall>pp. lh_first s = Some pp \<longrightarrow> le_prev (pages s pp) = Some Head)
        \<and> \<not> isl (page_alloc s)"
      by simp
  qed
qed

theorem page_alloc_spec_witness:
  "lh_first ex_boot = None \<and> page_alloc ex_boot = Inr (Inl E_NO_MEM, ex_boot)
   \<and> lh_first ex_init = Some 5 \<and> le_prev (pages ex_init 5) = Some Head
   \<and> (\<exists>s'. page_alloc ex_init = Inr (Inr 5, s') \<and> lh_first s' = Some 4
          \<and> pages s' 5 = \<lparr>le_next = None, le_prev = None, pp_ref = 0\<rparr>
          \<and> le_prev (pages s' 4) = Some Head)
   \<and> PPN 0x2000 \<le> PPN 0x3000
   \<and> PPN 0x3000 \<le> PPN (PADDR (ROUNDUP (boot_freemem ex_boot) PGSIZE))
   \<and> \<not> isl (db_run [Alloc, Decref 2, Free 5] ex_init)
   \<and> db_calls_ok [Alloc, Decref 2, Free 5] ex_init
   \<and> lh_first (projr (db_run [Alloc, Decref 2, Free 5] ex_init)) = Some 5
   \<and> le_prev (pages (projr (db_run [Alloc, Decref 2, Free 5] ex_init)) 5) = Some Head
   \<and> \<not> isl (page_alloc (projr (db_run [Alloc, Decref 2, Free 5] ex_init)))"
proof -
  let ?cs = "[Alloc, Decref 2, Free 5]"
  let ?s = "projr (db_run ?cs ex_init)"
  have e: "lh_first ex_boot = None" by code_simp
  have h: "lh_first ex_init = Some 5" by code_simp
  have l: "le_prev (pages ex_init 5) = Some Head" by code_simp
  have n: "le_next (pages ex_init 5) = Some 4" by code_simp
  from page_alloc_spec [of ex_boot] e
  have a: "page_alloc ex_boot = Inr (Inl E_NO_MEM, ex_boot)" by simp
  from page_alloc_spec [of ex_init] h l n
  have b: "\<exists>s'. page_alloc ex_init = Inr (Inr 5, s') \<and> lh_first s' = Some 4
          \<and> pages s' 5 = \<lparr>le_next = None, le_prev = None, pp_ref = 0\<rparr>
          \<and> le_prev (pages s' 4) = Some Head"
    by auto
  have lay: "PPN 0x2000 \<le> PPN 0x3000"
    "PPN 0x3000 \<le> PPN (PADDR (ROUNDUP (boot_freemem ex_boot) PGSIZE))"
    by code_simp+
  have r: "\<not> isl (db_run ?cs ex_init)" by code_simp
  have ok: "db_calls_ok ?cs ex_init" by code_simp
  have hd: "lh_first ?s = Some 5" by code_simp
  have run: "db_run ?cs (page_init 0x2000 0x3000 ex_boot) = Inr ?s"
    using r by (simp add: ex_init_def)
  from page_alloc_spec [of ?s] lay run ok [unfolded ex_init_def]
  have "(\<forall>pp. lh_first ?s = Some pp \<longrightarrow> le_prev (pages ?s pp) = Some Head)
      \<and> \<not> isl (page_alloc ?s)"
    by blast
  with hd have c: "le_prev (pages ?s 5) = Some Head" "\<not> isl (page_alloc ?s)" by simp_all
  from e a h l b lay r ok hd c show ?thesis by blast
qed

text \<open>
  The claim as stated fails after a double free. On the machine with six frames, \<open>page_free\<close>
  of frame 5, the head of the free list, followed by one \<open>page_alloc\<close> leaves a list that is
  not empty and whose head has a null back link; the next \<open>page_alloc\<close> stores through that
  null pointer.
\<close>

theorem page_alloc_spec_counterexample:
  "\<not> isl (db_run [Free 5, Alloc] ex_init)
   \<and> on_free_list ex_init 5
   \<and> lh_first (projr (db_run [Free 5, Alloc] ex_init)) = Some 5
   \<and> le_prev (pages (projr (db_run [Free 5, Alloc] ex_init)) 5) = None
   \<and> isl (page_alloc (projr (db_run [Free 5, Alloc] ex_init)))
   \<and> projl (page_alloc (projr (db_run [Free 5, Alloc] ex_init))) = NullStore"
  by code_simp

subsection \<open>Removing a mapping\<close>

text \<open>
  Claim C4. \<open>page_lookup\<close> always returns, with the state as it was. When it finds no
  mapping at \<open>va\<close>, \<open>page_remove\<close> returns the state unchanged: no count, no entry and no invalidation. When it finds frame \<open>f\<close> through the
  entry \<open>pte\<close>, \<open>page_remove\<close> stores 0 in that entry and nowhere else, invalidates \<open>va\<close>, and
  subtracts one from the count of \<open>f\<close> and of no other frame; \<open>f\<close> is pushed at the head of
  the free list when its count was 1, and the list is untouched otherwise.
\<close>

theorem page_remove_spec:
  fixes s :: "'w::len pmap"
  shows "(\<exists>r. page_lookup pgdir va s = Inr (r, s))
     \<and> (page_lookup pgdir va s = Inr (None, s) \<longrightarrow> page_remove pgdir va s = Inr s)
     \<and> (\<forall>f pte. page_lookup pgdir va s = Inr (Some (f, pte), s) \<longrightarrow>
          (\<exists>s'. page_remove pgdir va s = Inr s'
              \<and> mem s' = (mem s)(pte := 0)
              \<and> tlb_log s' = va # tlb_log s
              \<and> pp_ref (pages s' f) = pp_ref (pages s f) - 1
              \<and> (\<forall>x. x \<noteq> f \<longrightarrow> pp_ref (pages s' x) = pp_ref (pages s x))
              \<and> (pp_ref (pages s f) = 1 \<longrightarrow>
                    lh_first s' = Some f \<and> le_next (pages s' f) = lh_first s
                    \<and> free_list_links s' = free_list_links (LIST_INSERT_HEAD f s))
              \<and> (pp_ref (pages s f) \<noteq> 1 \<longrightarrow> free_list_links s' = free_list_links s)))"
proof (intro conjI impI allI)
  show "\<exists>r. page_lookup pgdir va s = Inr (r, s)" by (rule page_lookup_total)
next
  assume "page_lookup pgdir va s = Inr (None, s)"
  then show "page_remove pgdir va s = Inr s" by (simp add: page_remove_def)
next
  fix f pte assume "page_lookup pgdir va s = Inr (Some (f, pte), s)"
  then show "\<exists>s'. page_remove pgdir va s = Inr s'
              \<and> mem s' = (mem s)(pte := 0)
              \<and> tlb_log s' = va # tlb_log s
              \<and> pp_ref (pages s' f) = pp_ref (pages s f) - 1
              \<and> (\<forall>x. x \<noteq> f \<longrightarrow> pp_ref (pages s' x) = pp_ref (pages s x))
              \<and> (pp_ref (pages s f) = 1 \<longrightarrow>
                    lh_first s' = Some f \<and> le_next (pages s' f) = lh_first s
                    \<and> free_list_links s' = free_list_links (LIST_INSERT_HEAD f s))
              \<and> (pp_ref (pages s f) \<noteq> 1 \<longrightarrow> free_list_links s' = free_list_links s)"
    by (rule page_remove_mapped)
qed

theorem page_remove_spec_witness:
  "page_lookup 3 0x2000 ex_mapped = Inr (None, ex_mapped)
   \<and> page_remove 3 0x2000 ex_mapped = Inr ex_mapped
   \<and> page_lookup 3 0x1000 ex_mapped = Inr (Some (5, (4, 1)), ex_mapped)
   \<and> pp_ref (pages ex_mapped 5) = 1
   \<and> (\<exists>s'. page_remove 3 0x1000 ex_mapped = Inr s' \<and> mem s' (4, 1) = 0
          \<and> mem s' (3, 0) = 0x4007 \<and> tlb_log s' = [0x1000]
          \<and> pp_ref (pages s' 5) = 0 \<and> pp_ref (pages s' 4) = 1
          \<and> lh_first s' = Some 5 \<and> le_next (pages s' 5) = Some 1)"
proof -
  have n: "page_lookup 3 0x2000 ex_mapped = Inr (None, ex_mapped)"
    by (simp add: page_lookup_def pgdir_walk_def Let_def ex_mapped_def pt_defs)
  have m: "page_lookup 3 0x1000 ex_mapped = Inr (Some (5, (4, 1)), ex_mapped)"
    by (simp add: page_lookup_def pgdir_walk_def Let_def ex_mapped_def pt_defs)
  have v: "pp_ref (pages ex_mapped 5) = 1" "pp_ref (pages ex_mapped 4) = 1"
    "lh_first ex_mapped = Some 1" "mem ex_mapped (3, 0) = 0x4007" "tlb_log ex_mapped = []"
    by (simp_all add: ex_mapped_def)
  from page_remove_spec [of 3 "0x2000" ex_mapped] n
  have a: "page_remove 3 0x2000 ex_mapped = Inr ex_mapped" by simp
  from page_remove_spec [of 3 "0x1000" ex_mapped] m
  obtain s' where
    "page_remove 3 0x1000 ex_mapped = Inr s'" "mem s' = (mem ex_mapped)((4, 1) := 0)"
    "tlb_log s' = 0x1000 # tlb_log ex_mapped"
    "pp_ref (pages s' 5) = pp_ref (pages ex_mapped 5) - 1"
    "\<forall>x. x \<noteq> 5 \<longrightarrow> pp_ref (pages s' x) = pp_ref (pages ex_mapped x)"
    "pp_ref (pages ex_mapped 5) = 1 \<longrightarrow>
        lh_first s' = Some 5 \<and> le_next (pages s' 5) = lh_first ex_mapped
        \<and> free_list_links s' = free_list_links (LIST_INSERT_HEAD 5 ex_mapped)"
    by blast
  with v have b: "\<exists>s'. page_remove 3 0x1000 ex_mapped = Inr s' \<and> mem s' (4, 1) = 0
          \<and> mem s' (3, 0) = 0x4007 \<and> tlb_log s' = [0x1000]
          \<and> pp_ref (pages s' 5) = 0 \<and> pp_ref (pages s' 4) = 1
          \<and> lh_first s' = Some 5 \<and> le_next (pages s' 5) = Some 1"
    by simp
  from n m v(1) a b show ?thesis by blast
qed

text \<open>
  Claim C10. Where the directory entry for \<open>va\<close> is a present large page, \<open>page_lookup\<close>
  returns the descriptor of the frame at the address the entry holds, with the directory
  slot as the entry; for an entry whose address is aligned to 4 MB this is the first of
  the 1024 frames of the region. \<open>page_remove\<close> stores 0 in that one directory slot,
  invalidates \<open>va\<close>, and subtracts one from the count of that frame only.
\<close>

theorem large_page_lookup_remove:
  fixes s :: "'w::len pmap"
  assumes P: "mem s (pgdir, PDX va) AND PTE_P \<noteq> 0"
    and PS: "mem s (pgdir, PDX va) AND PTE_PS \<noteq> 0"
  shows "page_lookup pgdir va s =
           Inr (Some (pa2page (PTE_ADDR (mem s (pgdir, PDX va))), (pgdir, PDX va)), s)
     \<and> page2pa (pa2page (PTE_ADDR (mem s (pgdir, PDX va)))) = PTE_ADDR (mem s (pgdir, PDX va))
     \<and> (JPGOFF (PTE_ADDR (mem s (pgdir, PDX va))) = 0 \<longrightarrow>
           pa2page (PTE_ADDR (mem s (pgdir, PDX va))) mod 1024 = 0)
     \<and> (\<exists>s'. page_remove pgdir va s = Inr s'
           \<and> mem s' = (mem s)((pgdir, PDX va) := 0)
           \<and> tlb_log s' = va # tlb_log s
           \<and> pp_ref (pages s' (pa2page (PTE_ADDR (mem s (pgdir, PDX va))))) =
               pp_ref (pages s (pa2page (PTE_ADDR (mem s (pgdir, PDX va))))) - 1
           \<and> (\<forall>x. x \<noteq> pa2page (PTE_ADDR (mem s (pgdir, PDX va))) \<longrightarrow>
                  pp_ref (pages s' x) = pp_ref (pages s x)))"
proof -
  let ?f = "pa2page (PTE_ADDR (mem s (pgdir, PDX va)))"
  have l: "page_lookup pgdir va s = Inr (Some (?f, (pgdir, PDX va)), s)"
    using P PS by (simp add: page_lookup_def pgdir_walk_def Let_def)
  have a: "page2pa ?f = PTE_ADDR (mem s (pgdir, PDX va))"
    by (simp add: pa2page_def page2pa_PPN) (simp add: PTE_ADDR_def)
  have j: "JPGOFF (PTE_ADDR (mem s (pgdir, PDX va))) = 0 \<longrightarrow> ?f mod 1024 = 0"
    by (simp add: pa2page_def jumbo_first)
  from page_remove_mapped [OF l] obtain s' where
    r: "page_remove pgdir va s = Inr s'" "mem s' = (mem s)((pgdir, PDX va) := 0)"
    "tlb_log s' = va # tlb_log s" "pp_ref (pages s' ?f) = pp_ref (pages s ?f) - 1"
    "\<forall>x. x \<noteq> ?f \<longrightarrow> pp_ref (pages s' x) = pp_ref (pages s x)"
    by blast
  from r have "\<exists>s'. page_remove pgdir va s = Inr s'
           \<and> mem s' = (mem s)((pgdir, PDX va) := 0)
           \<and> tlb_log s' = va # tlb_log s
           \<and> pp_ref (pages s' ?f) = pp_ref (pages s ?f) - 1
           \<and> (\<forall>x. x \<noteq> ?f \<longrightarrow> pp_ref (pages s' x) = pp_ref (pages s x))"
    by simp
  with l a j show ?thesis by simp
qed

theorem large_page_lookup_remove_witness:
  "mem ex_mapped (3, PDX 0x412345) AND PTE_P \<noteq> 0
   \<and> mem ex_mapped (3, PDX 0x412345) AND PTE_PS \<noteq> 0
   \<and> JPGOFF (PTE_ADDR (mem ex_mapped (3, PDX 0x412345))) = 0
   \<and> page_lookup 3 0x412345 ex_mapped = Inr (Some (0, (3, 1)), ex_mapped)
   \<and> pp_ref (pages ex_mapped 0) = 1
   \<and> (\<exists>s'. page_remove 3 0x412345 ex_mapped = Inr s' \<and> mem s' (3, 1) = 0
          \<and> tlb_log s' = [0x412345] \<and> pp_ref (pages s' 0) = 0
          \<and> pp_ref (pages s' 2) = 1 \<and> pp_ref (pages s' 5) = 1)"
proof -
  have h: "mem ex_mapped (3, PDX 0x412345) AND PTE_P \<noteq> 0"
    "mem ex_mapped (3, PDX 0x412345) AND PTE_PS \<noteq> 0"
    "JPGOFF (PTE_ADDR (mem ex_mapped (3, PDX 0x412345))) = 0"
    by (simp_all add: ex_mapped_def pt_defs)
  have e: "PDX 0x412345 = 1" "pa2page (PTE_ADDR (mem ex_mapped (3, 1))) = 0"
    by (simp_all add: ex_mapped_def pt_defs)
  have v: "pp_ref (pages ex_mapped 0) = 1" "pp_ref (pages ex_mapped 2) = 1"
    "pp_ref (pages ex_mapped 5) = 1" "tlb_log ex_mapped = []"
    by (simp_all add: ex_mapped_def)
  note t = large_page_lookup_remove [OF h(1) h(2), unfolded e]
  from t have l: "page_lookup 3 0x412345 ex_mapped = Inr (Some (0, (3, 1)), ex_mapped)"
    by simp
  from t obtain s' where
    "page_remove 3 0x412345 ex_mapped = Inr s'" "mem s' = (mem ex_mapped)((3, 1) := 0)"
    "tlb_log s' = 0x412345 # tlb_log ex_mapped"
    "pp_ref (pages s' 0) = pp_ref (pages ex_mapped 0) - 1"
    "\<forall>x. x \<noteq> 0 \<longrightarrow> pp_ref (pages s' x) = pp_ref (pages ex_mapped x)"
    by blast
  with v have b: "\<exists>s'. page_remove 3 0x412345 ex_mapped = Inr s' \<and> mem s' (3, 1) = 0
          \<and> tlb_log s' = [0x412345] \<and> pp_ref (pages s' 0) = 0
          \<and> pp_ref (pages s' 2) = 1 \<and> pp_ref (pages s' 5) = 1"
    by simp
  from h l v(1) b show ?thesis by blast
qed

subsection \<open>Inserting over a present mapping\<close>




text \<open>
  Claim C3, amended. \<open>page_insert\<close> adds one to the count of the inserted frame before it
  looks at the entry and removes what is mapped there: when \<open>page_lookup\<close> finds the very
  frame \<open>f\<close> at \<open>va\<close>, the removal runs on the state in which the count of \<open>f\<close> is already
  one higher, and the insert succeeds with every count as it was and the entry holding
  \<open>page2pa f | PTE_P | perm\<close>. With a count that is not 0, \<open>f\<close> is not freed: the descriptors
  and the free list end as they were. With a count of 0 the count goes to 1 and back to 0
  and the removal frees \<open>f\<close>. With a count of 1, the removal on its own, before any
  increment, would have brought the count to 0 and put \<open>f\<close> on the free list. Where the
  entry is a second-level entry (not the directory slot), \<open>f\<close> is a frame number below
  \<open>2 ^ 20\<close> and the permissions lie within the low 12 bits, \<open>page_lookup\<close> still finds \<open>f\<close> at
  \<open>va\<close>.
\<close>

theorem page_insert_same_frame:
  fixes s :: "'w::len pmap"
  assumes look: "page_lookup pgdir va s = Inr (Some (f, pte), s)"
  shows "\<exists>s3 s'. page_remove pgdir va (set_pp_ref f (pp_ref (pages s f) + 1) s) = Inr s3
     \<and> s' = s3\<lparr>mem := (mem s3)(pte := page2pa f OR PTE_P OR perm)\<rparr>
     \<and> page_insert pgdir f va perm s = Inr (Inr (), s')
     \<and> (\<forall>x. pp_ref (pages s' x) = pp_ref (pages s x))
     \<and> mem s' = (mem s)(pte := page2pa f OR PTE_P OR perm)
     \<and> tlb_log s' = va # tlb_log s
     \<and> (pp_ref (pages s f) \<noteq> 0 \<longrightarrow> pages s' = pages s \<and> lh_first s' = lh_first s)
     \<and> (pp_ref (pages s f) = 0 \<longrightarrow>
          lh_first s' = Some f
          \<and> free_list_links s' = free_list_links (LIST_INSERT_HEAD f s))
     \<and> (pp_ref (pages s f) = 1 \<longrightarrow>
          (\<exists>s1. page_remove pgdir va s = Inr s1 \<and> pp_ref (pages s1 f) = 0
               \<and> lh_first s1 = Some f))
     \<and> (f < 2 ^ 20 \<and> perm AND NOT 0xFFF = 0 \<and> pte \<noteq> (pgdir, PDX va) \<longrightarrow>
          page_lookup pgdir va s' = Inr (Some (f, pte), s'))"
proof -
  let ?r = "pp_ref (pages s f)"
  let ?s2 = "set_pp_ref f (?r + 1) s"
  let ?v = "page2pa f OR PTE_P OR perm"
  from page_insert_present [OF look, of f perm] obtain s3 where
    d: "page_decref f (tlb_invalidate pgdir va (?s2\<lparr>mem := (mem s)(pte := 0)\<rparr>)) = Inr s3"
    and rm: "page_remove pgdir va ?s2 = Inr s3"
    and i: "page_insert pgdir f va perm s = Inr (Inr (), s3\<lparr>mem := (mem s3)(pte := ?v)\<rparr>)"
    by blast
  let ?s' = "s3\<lparr>mem := (mem s3)(pte := ?v)\<rparr>"
  note ls = page_lookup_SomeD [OF look]
  have s3: "s3 = (if ?r = 0
       then LIST_INSERT_HEAD f (set_pp_ref f 0
              (tlb_invalidate pgdir va (?s2\<lparr>mem := (mem s)(pte := 0)\<rparr>)))
       else set_pp_ref f ?r (tlb_invalidate pgdir va (?s2\<lparr>mem := (mem s)(pte := 0)\<rparr>)))"
    using d by (simp add: page_decref_eq split: if_splits)
  have cnt: "\<forall>x. pp_ref (pages ?s' x) = pp_ref (pages s x)"
    unfolding s3 by simp
  have m: "mem ?s' = (mem s)(pte := ?v)" "tlb_log ?s' = va # tlb_log s"
    unfolding s3 by simp_all
  have nz: "?r \<noteq> 0 \<longrightarrow> pages ?s' = pages s \<and> lh_first ?s' = lh_first s"
    unfolding s3 by (simp add: set_pp_ref_def tlb_invalidate_def fun_eq_iff)
  have z: "?r = 0 \<longrightarrow> lh_first ?s' = Some f
          \<and> free_list_links ?s' = free_list_links (LIST_INSERT_HEAD f s)"
    unfolding s3 by (auto intro!: free_list_links_insert_cong)
  have ord: "?r = 1 \<longrightarrow>
          (\<exists>s1. page_remove pgdir va s = Inr s1 \<and> pp_ref (pages s1 f) = 0
               \<and> lh_first s1 = Some f)"
    using look by (simp add: page_remove_def page_decref_eq Let_def)
  have p: "mem ?s' pte AND PTE_P \<noteq> 0"
    using m(1) by (simp add: present_bit del: pmap_state.simps)
  have l: "f < 2 ^ 20 \<and> perm AND NOT 0xFFF = 0 \<and> pte \<noteq> (pgdir, PDX va) \<longrightarrow>
           page_lookup pgdir va ?s' = Inr (Some (f, pte), ?s')"
  proof (intro impI, elim conjE)
    assume B: "f < 2 ^ 20" and pm: "perm AND NOT 0xFFF = 0" and np: "pte \<noteq> (pgdir, PDX va)"
    have a: "pa2page (PTE_ADDR (mem ?s' pte)) = f"
      using m(1) B pm by (simp add: pa2page_def PTE_ADDR_flags PPN_page2pa del: pmap_state.simps)
    have pde: "mem ?s' (pgdir, PDX va) = mem s (pgdir, PDX va)"
      using m(1) np by (simp del: pmap_state.simps)
    have nps: "mem s (pgdir, PDX va) AND PTE_PS = 0"
      using ls(4) np by (auto split: if_splits)
    have w: "pgdir_walk pgdir va 0 ?s' = Inr (Some pte, ?s')"
      using pgdir_walk_present [of ?s' pgdir va 0] ls(1) ls(4) nps pde
      by (simp del: pmap_state.simps)
    show "page_lookup pgdir va ?s' = Inr (Some (f, pte), ?s')"
      using w p a by (simp add: page_lookup_def del: pmap_state.simps)
  qed
  show ?thesis
    apply (rule exI [of _ s3])
    apply (rule exI [of _ ?s'])
    using rm i cnt m nz z ord l apply (simp del: pmap_state.simps)
    done
qed

theorem page_insert_same_frame_witness:
  "page_lookup 3 0x1000 ex_mapped = Inr (Some (5, (4, 1)), ex_mapped)
   \<and> pp_ref (pages ex_mapped 5) = 1
   \<and> (\<exists>s'. page_insert 3 5 0x1000 PTE_U ex_mapped = Inr (Inr (), s')
          \<and> pp_ref (pages s' 5) = 1 \<and> lh_first s' = Some 1
          \<and> mem s' (4, 1) = 0x5005 \<and> tlb_log s' = [0x1000]
          \<and> page_lookup 3 0x1000 s' = Inr (Some (5, (4, 1)), s'))
   \<and> (\<exists>s1. page_remove 3 0x1000 ex_mapped = Inr s1 \<and> pp_ref (pages s1 5) = 0
          \<and> lh_first s1 = Some 5)
   \<and> page_lookup 3 0x1000 ex_uncounted = Inr (Some (5, (4, 1)), ex_uncounted)
   \<and> pp_ref (pages ex_uncounted 5) = 0
   \<and> (\<exists>s'. page_insert 3 5 0x1000 PTE_U ex_uncounted = Inr (Inr (), s')
          \<and> pp_ref (pages s' 5) = 0 \<and> lh_first s' = Some 5)"
proof -
  have m: "page_lookup 3 0x1000 ex_mapped = Inr (Some (5, (4, 1)), ex_mapped)"
    by (simp add: page_lookup_def pgdir_walk_def Let_def ex_mapped_def pt_defs)
  have u: "page_lookup 3 0x1000 ex_uncounted = Inr (Some (5, (4, 1)), ex_uncounted)"
    by (rule page_lookup_mem_cong [OF m]) (simp add: ex_uncounted_def)
  have v: "pp_ref (pages ex_mapped 5) = 1" "lh_first ex_mapped = Some 1"
    "tlb_log ex_mapped = []" "pp_ref (pages ex_uncounted 5) = 0"
    by (simp_all add: ex_mapped_def ex_uncounted_def)
  have c: "page2pa 5 OR PTE_P OR PTE_U = 0x5005" "(5::nat) < 2 ^ 20" "PTE_U AND NOT 0xFFF = 0"
    "((4::nat), (1::nat)) \<noteq> (3, PDX 0x1000)"
    by (simp_all add: pt_defs)
  from page_insert_same_frame [OF m, of PTE_U] v(1) c(2,3,4)
  obtain s' s1 where
    "page_insert 3 5 0x1000 PTE_U ex_mapped = Inr (Inr (), s')"
    "\<forall>x. pp_ref (pages s' x) = pp_ref (pages ex_mapped x)" "lh_first s' = lh_first ex_mapped"
    "mem s' = (mem ex_mapped)((4, 1) := page2pa 5 OR PTE_P OR PTE_U)"
    "tlb_log s' = 0x1000 # tlb_log ex_mapped"
    "page_lookup 3 0x1000 s' = Inr (Some (5, (4, 1)), s')"
    "page_remove 3 0x1000 ex_mapped = Inr s1" "pp_ref (pages s1 5) = 0"
    "lh_first s1 = Some 5"
    by (auto simp del: pmap_state.simps)
  with v c(1) have a: "(\<exists>s'. page_insert 3 5 0x1000 PTE_U ex_mapped = Inr (Inr (), s')
          \<and> pp_ref (pages s' 5) = 1 \<and> lh_first s' = Some 1
          \<and> mem s' (4, 1) = 0x5005 \<and> tlb_log s' = [0x1000]
          \<and> page_lookup 3 0x1000 s' = Inr (Some (5, (4, 1)), s'))
   \<and> (\<exists>s1. page_remove 3 0x1000 ex_mapped = Inr s1 \<and> pp_ref (pages s1 5) = 0
          \<and> lh_first s1 = Some 5)"
    by (auto simp del: pmap_state.simps)
  from page_insert_same_frame [OF u, of PTE_U] v(4)
  obtain t' where
    "page_insert 3 5 0x1000 PTE_U ex_uncounted = Inr (Inr (), t')"
    "\<forall>x. pp_ref (pages t' x) = pp_ref (pages ex_uncounted x)" "lh_first t' = Some 5"
    by (auto simp del: pmap_state.simps)
  with v(4) have b: "\<exists>s'. page_insert 3 5 0x1000 PTE_U ex_uncounted = Inr (Inr (), s')
          \<and> pp_ref (pages s' 5) = 0 \<and> lh_first s' = Some 5"
    by auto
  from m v(1) a u v(4) b show ?thesis by blast
qed

text \<open>
  The claim as stated fails in two ways. With frame 5 mapped at \<open>0x1000\<close> and its count at 0,
  inserting frame 5 there succeeds and frees frame 5, which ends on the free list while
  mapped. With frame 0, of count 1, mapped by the large page at \<open>0x412345\<close>, inserting frame 0
  there with \<open>PTE_W\<close> succeeds and overwrites the directory slot with \<open>0x3\<close>, after which
  \<open>page_lookup\<close> finds nothing at that address.
\<close>

theorem page_insert_same_frame_counterexample:
  "fst (projr (page_lookup 3 0x1000 ex_uncounted)) = Some (5, (4, 1))
   \<and> \<not> on_free_list ex_uncounted 5
   \<and> \<not> isl (page_insert 3 5 0x1000 PTE_U ex_uncounted)
   \<and> fst (projr (page_insert 3 5 0x1000 PTE_U ex_uncounted)) = Inr ()
   \<and> on_free_list (snd (projr (page_insert 3 5 0x1000 PTE_U ex_uncounted))) 5
   \<and> mem (snd (projr (page_insert 3 5 0x1000 PTE_U ex_uncounted))) (4, 1) = 0x5005
   \<and> fst (projr (page_lookup 3 0x412345 ex_mapped)) = Some (0, (3, 1))
   \<and> pp_ref (pages ex_mapped 0) = 1
   \<and> \<not> isl (page_insert 3 0 0x412345 PTE_W ex_mapped)
   \<and> fst (projr (page_insert 3 0 0x412345 PTE_W ex_mapped)) = Inr ()
   \<and> mem (snd (projr (page_insert 3 0 0x412345 PTE_W ex_mapped))) (3, 1) = 0x3
   \<and> fst (projr (page_lookup 3 0x412345
        (snd (projr (page_insert 3 0 0x412345 PTE_W ex_mapped))))) = None"
  by code_simp

subsection \<open>Creating tables and large pages\<close>

text \<open>
  Claim C6. Let the directory entry for \<open>va\<close> be absent. With an empty free list
  \<open>pgdir_walk\<close> in create mode 1 returns null and \<open>page_insert\<close> returns \<open>-E_NO_MEM\<close>, both
  without stopping and with the state as it was. When \<open>page_alloc\<close> hands out frame \<open>t\<close>,
  \<open>pgdir_walk\<close> returns the entry for \<open>va\<close> in the table at the address of \<open>t\<close>: the count of
  \<open>t\<close> is 1, the directory entry holds \<open>page2pa t | PTE_P | PTE_W | PTE_U\<close>, every entry of the
  new table is 0 (apart from the directory slot, should it lie in the same frame), no other
  entry, no other count and no link changes after the allocation.
\<close>

theorem pgdir_walk_new_table:
  fixes s :: "'w::len pmap"
  assumes absent: "mem s (pgdir, PDX va) AND PTE_P = 0"
  shows "(lh_first s = None \<longrightarrow>
            pgdir_walk pgdir va 1 s = Inr (None, s)
          \<and> page_insert pgdir pp va perm s = Inr (Inl E_NO_MEM, s))
     \<and> (\<forall>t s1. page_alloc s = Inr (Inr t, s1) \<longrightarrow>
          (\<exists>s'. pgdir_walk pgdir va 1 s = Inr (Some (KADDR_entry (page2pa t) (PTX va)), s')
              \<and> pp_ref (pages s' t) = 1
              \<and> mem s' (pgdir, PDX va) = page2pa t OR PTE_P OR PTE_W OR PTE_U
              \<and> (\<forall>i. i < NPTENTRIES \<and> (PPN (page2pa t), i) \<noteq> (pgdir, PDX va) \<longrightarrow>
                     mem s' (PPN (page2pa t), i) = 0)
              \<and> (\<forall>p. fst p \<noteq> PPN (page2pa t) \<and> p \<noteq> (pgdir, PDX va) \<longrightarrow>
                     mem s' p = mem s p)
              \<and> (\<forall>x. x \<noteq> t \<longrightarrow> pp_ref (pages s' x) = pp_ref (pages s1 x))
              \<and> free_list_links s' = free_list_links s1
              \<and> tlb_log s' = tlb_log s
              \<and> (t < 2 ^ 20 \<longrightarrow> PPN (page2pa t) = t)))"
proof (intro conjI impI allI)
  assume e: "lh_first s = None"
  then have a: "page_alloc s = Inr (Inl E_NO_MEM, s)" by (simp add: page_alloc_def)
  show w: "pgdir_walk pgdir va 1 s = Inr (None, s)"
    using absent a by (simp add: pgdir_walk_def Let_def)
  show "page_insert pgdir pp va perm s = Inr (Inl E_NO_MEM, s)"
    by (simp add: page_insert_def w)
next
  fix t s1 assume a: "page_alloc s = Inr (Inr t, s1)"
  note k = page_alloc_keeps [OF a]
  let ?s' = "(set_pp_ref t 1 s1)\<lparr>mem := (memset_page (PPN (page2pa t)) (mem s))
       ((pgdir, PDX va) := page2pa t OR PTE_P OR PTE_W OR PTE_U)\<rparr>"
  have w: "pgdir_walk pgdir va 1 s = Inr (Some (KADDR_entry (page2pa t) (PTX va)), ?s')"
    using absent a k by (simp add: pgdir_walk_def Let_def PTE_ADDR_table)
  have "pp_ref (pages ?s' t) = 1"
      "mem ?s' (pgdir, PDX va) = page2pa t OR PTE_P OR PTE_W OR PTE_U"
      "\<forall>i. i < NPTENTRIES \<and> (PPN (page2pa t), i) \<noteq> (pgdir, PDX va) \<longrightarrow>
                     mem ?s' (PPN (page2pa t), i) = 0"
      "\<forall>p. fst p \<noteq> PPN (page2pa t) \<and> p \<noteq> (pgdir, PDX va) \<longrightarrow> mem ?s' p = mem s p"
      "\<forall>x. x \<noteq> t \<longrightarrow> pp_ref (pages ?s' x) = pp_ref (pages s1 x)"
      "free_list_links ?s' = free_list_links s1"
      "tlb_log ?s' = tlb_log s"
      "t < 2 ^ 20 \<longrightarrow> PPN (page2pa t) = t"
    using k by (auto simp: memset_page_def PPN_page2pa split: prod.splits)
  with w show "\<exists>s'. pgdir_walk pgdir va 1 s = Inr (Some (KADDR_entry (page2pa t) (PTX va)), s')
              \<and> pp_ref (pages s' t) = 1
              \<and> mem s' (pgdir, PDX va) = page2pa t OR PTE_P OR PTE_W OR PTE_U
              \<and> (\<forall>i. i < NPTENTRIES \<and> (PPN (page2pa t), i) \<noteq> (pgdir, PDX va) \<longrightarrow>
                     mem s' (PPN (page2pa t), i) = 0)
              \<and> (\<forall>p. fst p \<noteq> PPN (page2pa t) \<and> p \<noteq> (pgdir, PDX va) \<longrightarrow>
                     mem s' p = mem s p)
              \<and> (\<forall>x. x \<noteq> t \<longrightarrow> pp_ref (pages s' x) = pp_ref (pages s1 x))
              \<and> free_list_links s' = free_list_links s1
              \<and> tlb_log s' = tlb_log s
              \<and> (t < 2 ^ 20 \<longrightarrow> PPN (page2pa t) = t)"
    by blast
qed

theorem pgdir_walk_new_table_witness:
  "mem ex_boot (3, PDX 0) AND PTE_P = 0 \<and> lh_first ex_boot = None
   \<and> pgdir_walk 3 0 1 ex_boot = Inr (None, ex_boot)
   \<and> page_insert 3 5 0 0 ex_boot = Inr (Inl E_NO_MEM, ex_boot)
   \<and> mem ex_mapped (3, PDX 0x800000) AND PTE_P = 0
   \<and> (\<exists>s1. page_alloc ex_mapped = Inr (Inr 1, s1))
   \<and> (\<exists>s'. pgdir_walk 3 0x800000 1 ex_mapped = Inr (Some (1, 0), s')
          \<and> pp_ref (pages s' 1) = 1 \<and> mem s' (3, 2) = 0x1007
          \<and> mem s' (1, 0) = 0 \<and> mem s' (1, 1023) = 0
          \<and> mem s' (4, 1) = 0x5003 \<and> lh_first s' = None)"
proof -
  have b: "mem ex_boot (3, PDX 0) AND PTE_P = 0" "lh_first ex_boot = None"
    by (simp_all add: ex_boot_def)
  have a: "mem ex_mapped (3, PDX 0x800000) AND PTE_P = 0"
    by (simp add: ex_mapped_def pt_defs)
  obtain s1 where al: "page_alloc ex_mapped = Inr (Inr 1, s1)" and h1: "lh_first s1 = None"
    by (simp add: page_alloc_def LIST_REMOVE_def page_initpp_def ex_mapped_def)
  have c: "KADDR_entry (page2pa 1) (PTX 0x800000) = (1, 0)" "PDX 0x800000 = 2"
    "page2pa 1 OR PTE_P OR PTE_W OR PTE_U = 0x1007" "PPN (page2pa 1) = 1"
    "(1::nat) < 2 ^ 20" "(0::nat) < NPTENTRIES" "(1023::nat) < NPTENTRIES"
    "mem ex_mapped (4, 1) = 0x5003"
    by (simp_all add: pt_defs NPTENTRIES_def ex_mapped_def)
  from pgdir_walk_new_table [OF b(1), of 5 0] b(2)
  have e: "pgdir_walk 3 0 1 ex_boot = Inr (None, ex_boot)"
    "page_insert 3 5 0 0 ex_boot = Inr (Inl E_NO_MEM, ex_boot)"
    by simp_all
  from pgdir_walk_new_table [OF a] al
  obtain s' where
    "pgdir_walk 3 0x800000 1 ex_mapped = Inr (Some (KADDR_entry (page2pa 1) (PTX 0x800000)), s')"
    "pp_ref (pages s' 1) = 1"
    "mem s' (3, PDX 0x800000) = page2pa 1 OR PTE_P OR PTE_W OR PTE_U"
    "\<forall>i. i < NPTENTRIES \<and> (PPN (page2pa 1), i) \<noteq> (3, PDX 0x800000) \<longrightarrow>
         mem s' (PPN (page2pa 1), i) = 0"
    "\<forall>p. fst p \<noteq> PPN (page2pa 1) \<and> p \<noteq> (3, PDX 0x800000) \<longrightarrow> mem s' p = mem ex_mapped p"
    "free_list_links s' = free_list_links s1"
    by blast
  with c h1 have w: "\<exists>s'. pgdir_walk 3 0x800000 1 ex_mapped = Inr (Some (1, 0), s')
          \<and> pp_ref (pages s' 1) = 1 \<and> mem s' (3, 2) = 0x1007
          \<and> mem s' (1, 0) = 0 \<and> mem s' (1, 1023) = 0
          \<and> mem s' (4, 1) = 0x5003 \<and> lh_first s' = None"
    by (auto simp: free_list_links_def)
  from b e a al w show ?thesis by blast
qed

text \<open>
  Claim C8, amended. Both walkers look at the directory entry first. When it is absent, a
  walk in create mode 2 stops fatally for a \<open>va\<close> that is not aligned to 4 MB, and for an
  aligned \<open>va\<close> it stores \<open>PTE_PS | PTE_P\<close> in the directory slot and returns that slot. When
  the entry is present, the walk stops nowhere and stores nothing, whatever the alignment:
  it returns the directory slot of a large page, and the second-level entry otherwise.
\<close>

theorem walk_large_page:
  fixes s :: "'w::len pmap"
  shows "(mem s (pgdir, PDX va) AND PTE_P = 0 \<and> JPGOFF va \<noteq> 0 \<longrightarrow>
            pgdir_walk pgdir va 2 s = Inl Panic \<and> boot_pgdir_walk pgdir va 2 s = Inl Panic)
     \<and> (mem s (pgdir, PDX va) AND PTE_P = 0 \<and> JPGOFF va = 0 \<longrightarrow>
            pgdir_walk pgdir va 2 s =
              Inr (Some (pgdir, PDX va), s\<lparr>mem := (mem s)((pgdir, PDX va) := PTE_PS OR PTE_P)\<rparr>)
          \<and> boot_pgdir_walk pgdir va 2 s =
              Inr (Some (pgdir, PDX va), s\<lparr>mem := (mem s)((pgdir, PDX va) := PTE_PS OR PTE_P)\<rparr>)
          \<and> (PTE_PS OR PTE_P) AND PTE_PS \<noteq> 0 \<and> (PTE_PS OR PTE_P) AND PTE_P \<noteq> 0)
     \<and> (mem s (pgdir, PDX va) AND PTE_P \<noteq> 0 \<longrightarrow>
            pgdir_walk pgdir va 2 s =
              Inr (Some (if mem s (pgdir, PDX va) AND PTE_PS \<noteq> 0 then (pgdir, PDX va)
                         else KADDR_entry (PTE_ADDR (mem s (pgdir, PDX va))) (PTX va)), s)
          \<and> boot_pgdir_walk pgdir va 2 s = pgdir_walk pgdir va 2 s)"
  using jumbo_bits by (simp add: pgdir_walk_def boot_pgdir_walk_def Let_def)

theorem walk_large_page_witness:
  "mem ex_mapped (3, PDX 0x801000) AND PTE_P = 0 \<and> JPGOFF 0x801000 \<noteq> 0
   \<and> pgdir_walk 3 0x801000 2 ex_mapped = Inl Panic
   \<and> boot_pgdir_walk 3 0x801000 2 ex_mapped = Inl Panic
   \<and> mem ex_mapped (3, PDX 0x800000) AND PTE_P = 0 \<and> JPGOFF 0x800000 = 0
   \<and> pgdir_walk 3 0x800000 2 ex_mapped =
        Inr (Some (3, 2), ex_mapped\<lparr>mem := (mem ex_mapped)((3, 2) := 0x81)\<rparr>)
   \<and> boot_pgdir_walk 3 0x800000 2 ex_mapped =
        Inr (Some (3, 2), ex_mapped\<lparr>mem := (mem ex_mapped)((3, 2) := 0x81)\<rparr>)
   \<and> mem ex_mapped (3, PDX 0x412345) AND PTE_P \<noteq> 0
   \<and> pgdir_walk 3 0x412345 2 ex_mapped = Inr (Some (3, 1), ex_mapped)"
proof -
  have u: "mem ex_mapped (3, PDX 0x801000) AND PTE_P = 0" "JPGOFF 0x801000 \<noteq> 0"
    by (simp_all add: ex_mapped_def pt_defs)
  have al: "mem ex_mapped (3, PDX 0x800000) AND PTE_P = 0" "JPGOFF 0x800000 = 0"
    by (simp_all add: ex_mapped_def pt_defs)
  have p: "mem ex_mapped (3, PDX 0x412345) AND PTE_P \<noteq> 0"
    "mem ex_mapped (3, PDX 0x412345) AND PTE_PS \<noteq> 0"
    by (simp_all add: ex_mapped_def pt_defs)
  have c: "PDX 0x800000 = 2" "PDX 0x412345 = 1" "PTE_PS OR PTE_P = 0x81"
    by (simp_all add: pt_defs)
  from walk_large_page [of ex_mapped 3 "0x801000"] u
  have 1: "pgdir_walk 3 0x801000 2 ex_mapped = Inl Panic"
    "boot_pgdir_walk 3 0x801000 2 ex_mapped = Inl Panic"
    by simp_all
  from walk_large_page [of ex_mapped 3 "0x800000"] al
  have 2: "pgdir_walk 3 0x800000 2 ex_mapped =
        Inr (Some (3, 2), ex_mapped\<lparr>mem := (mem ex_mapped)((3, 2) := 0x81)\<rparr>)"
    "boot_pgdir_walk 3 0x800000 2 ex_mapped =
        Inr (Some (3, 2), ex_mapped\<lparr>mem := (mem ex_mapped)((3, 2) := 0x81)\<rparr>)"
    by (simp_all add: c)
  from walk_large_page [of ex_mapped 3 "0x412345"] p
  have 3: "pgdir_walk 3 0x412345 2 ex_mapped = Inr (Some (3, 1), ex_mapped)"
    by (simp add: c)
  from u al p(1) 1 2 3 show ?thesis by blast
qed

text \<open>
  The claim as stated fails where the directory entry is present: at the unaligned
  \<open>0x1000\<close> the walk in create mode 2 does not stop but returns the second-level entry, and
  at the aligned \<open>0\<close> it returns a second-level entry and installs no large page.
\<close>

theorem walk_large_page_counterexample:
  "JPGOFF 0x1000 \<noteq> 0
   \<and> pgdir_walk 3 0x1000 2 ex_mapped = Inr (Some (4, 1), ex_mapped)
   \<and> boot_pgdir_walk 3 0x1000 2 ex_mapped = Inr (Some (4, 1), ex_mapped)
   \<and> JPGOFF 0 = 0
   \<and> pgdir_walk 3 0 2 ex_mapped = Inr (Some (4, 0), ex_mapped)
   \<and> mem ex_mapped (3, PDX 0) AND PTE_PS = 0"
  by (simp add: pgdir_walk_def boot_pgdir_walk_def Let_def ex_mapped_def pt_defs)

subsection \<open>The access check\<close>

text \<open>
  Claim C2. The body of \<open>user_mem_check\<close> is the stub \<^verbatim>\<open>return 0\<close>: it reports success for
  every address, length and permission, also for a range above the split between user
  and kernel, and \<open>user_mem_assert\<close> therefore never destroys the environment.
\<close>

theorem user_mem_check_always_succeeds:
  "user_mem_check env va len perm = Inr () \<and> \<not> user_mem_assert env va len perm"
  by (simp add: user_mem_check_def user_mem_assert_def)

end
